theory Spec2Isabelle
  imports Main "HOL-Library.Word"
begin

section \<open>The websocket door: \<open>src/ripple/app/websocket/WSDoor.cpp\<close>\<close>

text \<open>
  \<open>WSDoorImp\<close> owns a thread (\<open>beast::Thread\<close>) whose body is \<open>run()\<close>, a shared
  pointer \<open>m_endpoint\<close> to the websocket server, and a recursive mutex
  \<open>m_endpointLock\<close>. \<open>onStop()\<close> is called from other threads. The model keeps the
  statements of the two member functions in their order and records every observable
  action (log lines, lock operations, accesses of \<open>m_endpoint\<close>, calls into the
  endpoint, \<open>stopped()\<close>, \<open>signalThreadShouldExit()\<close>) in a trace.
\<close>

subsection \<open>Data\<close>

text \<open>
  The members of \<open>HTTP::Port\<close> that this unit reads. The address is carried as the
  text that \<open>ip.to_string()\<close> yields; the port is a \<open>std::uint16_t\<close>.
\<close>

record Port =
  name :: string
  ip :: string
  port :: "16 word"
  allow_admin :: bool

text \<open>
  Exceptions by type: the handlers of \<open>run()\<close> catch \<open>websocketpp::exception&\<close>
  only, the handler of \<open>make_WSDoor\<close> catches everything. The string is \<open>what()\<close>.
\<close>

datatype exn = websocketpp_exception string | other_exception string

fun what :: "exn \<Rightarrow> string" where
  "what (websocketpp_exception m) = m"
| "what (other_exception m) = m"

text \<open>
  How a member function can end other than by returning: an exception leaves it, or it
  dereferences a null shared pointer, or it calls into an object that no shared pointer
  owns any more.
\<close>

datatype abort = Thrown exn | NullDeref | UseAfterFree

text \<open>\<open>Exec\<close> is the thread started by the constructor; \<open>Caller n\<close> are the threads
  that invoke \<open>onStop()\<close>.\<close>

datatype thread = Exec | Caller nat

text \<open>The shared pointers of this unit: the member \<open>m_endpoint\<close> and the local
  \<open>endpoint\<close> of an activation of \<open>onStop()\<close>.\<close>

datatype owner = Member | Local thread

type_synonym addr = nat

datatype LogSeverity = lsINFO | lsWARNING

datatype event =
    WriteLog LogSeverity string
  | Lock thread
  | Unlock thread
  | HandleRead thread
  | HandleWrite thread "addr option"
  | Listen addr string "16 word"
  | IoRun addr
  | EndpointStop thread addr
  | Stopped
  | SignalThreadShouldExit thread

text \<open>
  The members of \<open>WSDoorImp\<close> (\<open>port_\<close>, written \<open>port_cfg\<close> here,
  \<open>m_endpointLock\<close>, \<open>m_endpoint\<close>), the exit flag of its \<open>beast::Thread\<close> base,
  the shared pointers that own each endpoint object (none: the object does not exist, its
  use count is the size of the set), and the trace. The recursive mutex is its owner with
  the recursion depth.
\<close>

record world =
  port_cfg :: Port
  m_endpointLock :: "(thread \<times> nat) option"
  m_endpoint :: "addr option"
  threadShouldExit :: bool
  owners :: "addr \<Rightarrow> owner set"
  trace :: "event list"

text \<open>
  What the collaborators outside this unit do in one execution of \<open>run()\<close>: whether
  \<open>new WSServerHandler\<close> throws, whether \<open>make_shared<server_autotls>\<close> throws or
  where it places the endpoint, and how each blocking call ends: call \<open>0\<close> is
  \<open>listen\<close>, call \<open>k > 0\<close> is the \<open>k\<close>-th \<open>get_io_service().run()\<close>; \<open>None\<close> is a
  return, \<open>Some e\<close> the exception thrown; and how the call \<open>endpoint->stop ()\<close> made
  by an invocation of \<open>onStop()\<close> on a thread ends: it returns, it throws, or it blocks
  its caller for ever. The other calls out of this unit (\<open>WriteLog\<close>, \<open>stopped ()\<close>,
  \<open>signalThreadShouldExit ()\<close>, the operations of the mutex and of the shared pointers)
  are taken to return.
\<close>

datatype call_end = Returns | Throws exn | NeverReturns

record env =
  new_WSServerHandler :: "exn option"
  make_endpoint :: "exn + addr"
  serve_outcome :: "nat \<Rightarrow> exn option"
  stop_outcome :: "thread \<Rightarrow> call_end"

subsection \<open>Primitive actions\<close>

definition emit :: "event \<Rightarrow> world \<Rightarrow> world" where
  "emit e s = s\<lparr>trace := trace s @ [e]\<rparr>"

text \<open>\<open>ScopedLockType lock (m_endpointLock)\<close>: \<open>None\<close> when another thread owns the
  mutex, so that the caller does not proceed.\<close>

definition acquire :: "thread \<Rightarrow> world \<Rightarrow> world option" where
  "acquire t s =
     (case m_endpointLock s of
        None \<Rightarrow> Some (emit (Lock t) (s\<lparr>m_endpointLock := Some (t, 1)\<rparr>))
      | Some (t', d) \<Rightarrow>
          if t' = t then Some (emit (Lock t) (s\<lparr>m_endpointLock := Some (t, Suc d)\<rparr>))
          else None)"

text \<open>The end of the scope of a \<open>ScopedLockType\<close>.\<close>

definition release :: "thread \<Rightarrow> world \<Rightarrow> world" where
  "release t s =
     emit (Unlock t)
       (s\<lparr>m_endpointLock :=
            (case m_endpointLock s of
               None \<Rightarrow> None
             | Some (t', d) \<Rightarrow> if d \<le> 1 then None else Some (t', d - 1))\<rparr>)"

text \<open>A shared pointer starts, or ceases, to own the object it refers to.\<close>

definition add_owner :: "owner \<Rightarrow> addr option \<Rightarrow> world \<Rightarrow> world" where
  "add_owner w p s =
     (case p of
        None \<Rightarrow> s
      | Some a \<Rightarrow> s\<lparr>owners := (owners s)(a := insert w (owners s a))\<rparr>)"

definition drop_owner :: "owner \<Rightarrow> addr option \<Rightarrow> world \<Rightarrow> world" where
  "drop_owner w p s =
     (case p of
        None \<Rightarrow> s
      | Some a \<Rightarrow> s\<lparr>owners := (owners s)(a := owners s a - {w})\<rparr>)"

text \<open>\<open>p->f()\<close>: the object called, or the fault.\<close>

definition deref :: "addr option \<Rightarrow> world \<Rightarrow> abort + addr" where
  "deref p s =
     (case p of
        None \<Rightarrow> Inl NullDeref
      | Some a \<Rightarrow> if owners s a = {} then Inl UseAfterFree else Inr a)"

text \<open>\<open>m_endpoint = std::make_shared<...> (handler)\<close> with the new object at \<open>a\<close>,
  and \<open>m_endpoint.reset()\<close>.\<close>

definition assign_endpoint :: "addr \<Rightarrow> world \<Rightarrow> world" where
  "assign_endpoint a s =
     emit (HandleWrite Exec (Some a))
       ((drop_owner Member (m_endpoint s) s)
          \<lparr>m_endpoint := Some a,
           owners := (owners (drop_owner Member (m_endpoint s) s))(a := {Member})\<rparr>)"

definition reset_endpoint :: "world \<Rightarrow> world" where
  "reset_endpoint s =
     emit (HandleWrite Exec None)
       ((drop_owner Member (m_endpoint s) s)\<lparr>m_endpoint := None\<rparr>)"

subsection \<open>The startup diagnostic\<close>

text \<open>\<open>std::to_string\<close> of an unsigned value: its decimal digits.\<close>

definition digit_char :: "nat \<Rightarrow> char" where
  "digit_char d = ''0123456789'' ! d"

function to_string :: "nat \<Rightarrow> string" where
  "to_string n =
     (if n < 10 then [digit_char n] else to_string (n div 10) @ [digit_char (n mod 10)])"
  by pat_completeness auto
termination
  by (relation "measure (\<lambda>n. n)") auto

declare to_string.simps [simp del]

definition startup_message :: "Port \<Rightarrow> string" where
  "startup_message p =
     ''Websocket: '' @ [CHR 0x27] @ name p @ [CHR 0x27] @ '' listening on '' @
     ip p @ '':'' @ to_string (unat (port p)) @
     (if allow_admin p then ''(Admin)'' else [])"

subsection \<open>\<open>WSDoorImp::run\<close>\<close>

definition warn :: "exn \<Rightarrow> world \<Rightarrow> world" where
  "warn e s = emit (WriteLog lsWARNING (''websocketpp exception: '' @ what e)) s"

text \<open>
  The \<open>for (;;)\<close> of the outer handler, entered before call number \<open>k\<close>. The loop has no
  bound: \<open>None\<close> is the execution that never leaves it.
\<close>

partial_function (option) io_service_run_loop ::
  "env \<Rightarrow> nat \<Rightarrow> world \<Rightarrow> ((abort + unit) \<times> world) option"
where
  "io_service_run_loop env k s =
     (let s1 = emit (HandleRead Exec) s in
      case deref (m_endpoint s) s of
        Inl f \<Rightarrow> Some (Inl f, s1)
      | Inr a \<Rightarrow>
          (let s2 = emit (IoRun a) s1 in
           case serve_outcome env k of
             None \<Rightarrow> Some (Inr (), s2)
           | Some (websocketpp_exception m) \<Rightarrow>
               io_service_run_loop env (Suc k) (warn (websocketpp_exception m) s2)
           | Some (other_exception m) \<Rightarrow> Some (Inl (Thrown (other_exception m)), s2)))"

text \<open>The outer \<open>try\<close> block with its handler.\<close>

definition serve :: "env \<Rightarrow> world \<Rightarrow> ((abort + unit) \<times> world) option" where
  "serve env s =
     (let s1 = emit (HandleRead Exec) s in
      case deref (m_endpoint s) s of
        Inl f \<Rightarrow> Some (Inl f, s1)
      | Inr a \<Rightarrow>
          (let s2 = emit (Listen a (ip (port_cfg s)) (port (port_cfg s))) s1 in
           case serve_outcome env 0 of
             None \<Rightarrow> Some (Inr (), s2)
           | Some (websocketpp_exception m) \<Rightarrow>
               io_service_run_loop env 1 (warn (websocketpp_exception m) s2)
           | Some (other_exception m) \<Rightarrow> Some (Inl (Thrown (other_exception m)), s2)))"

text \<open>The last two blocks of \<open>run()\<close>: the locked \<open>reset\<close> and \<open>stopped ()\<close>.\<close>

definition teardown :: "world \<Rightarrow> ((abort + unit) \<times> world) option" where
  "teardown s =
     (case acquire Exec s of
        None \<Rightarrow> None
      | Some s1 \<Rightarrow> Some (Inr (), emit Stopped (release Exec (reset_endpoint s1))))"

text \<open>The state in which the \<open>try\<close> block is entered when \<open>s1\<close> is the state after
  the diagnostic, nobody holds the mutex and the endpoint is placed at \<open>a\<close>.\<close>

definition published :: "addr \<Rightarrow> world \<Rightarrow> world" where
  "published a s1 =
     release Exec (assign_endpoint a (emit (Lock Exec) (s1\<lparr>m_endpointLock := Some (Exec, 1)\<rparr>)))"

text \<open>\<open>run()\<close> from the construction of the handler on.\<close>

definition run_body :: "env \<Rightarrow> world \<Rightarrow> ((abort + unit) \<times> world) option" where
  "run_body env s1 =
     (case new_WSServerHandler env of
        Some e \<Rightarrow> Some (Inl (Thrown e), s1)
      | None \<Rightarrow>
          (case acquire Exec s1 of
             None \<Rightarrow> None
           | Some s2 \<Rightarrow>
               (case make_endpoint env of
                  Inl e \<Rightarrow> Some (Inl (Thrown e), release Exec s2)
                | Inr a \<Rightarrow>
                    (case serve env (release Exec (assign_endpoint a s2)) of
                       None \<Rightarrow> None
                     | Some (Inl f, s4) \<Rightarrow> Some (Inl f, s4)
                     | Some (Inr u, s4) \<Rightarrow> teardown s4))))"

definition run :: "env \<Rightarrow> world \<Rightarrow> ((abort + unit) \<times> world) option" where
  "run env s = run_body env (emit (WriteLog lsINFO (startup_message (port_cfg s))) s)"

subsection \<open>\<open>WSDoorImp::onStop\<close>\<close>

definition signalThreadShouldExit :: "thread \<Rightarrow> world \<Rightarrow> world" where
  "signalThreadShouldExit t s = emit (SignalThreadShouldExit t) (s\<lparr>threadShouldExit := True\<rparr>)"

text \<open>
  Called on thread \<open>t\<close>. The local \<open>endpoint\<close> owns the object from the copy until
  the function is left. \<open>endpoint->stop ()\<close> is not inside a \<open>try\<close>: what it throws
  leaves \<open>onStop()\<close> before \<open>signalThreadShouldExit ()\<close>, and when it does not return,
  \<open>onStop()\<close> does not either (\<open>None\<close>).
\<close>

definition onStop :: "env \<Rightarrow> thread \<Rightarrow> world \<Rightarrow> ((abort + unit) \<times> world) option" where
  "onStop env t s =
     (case acquire t s of
        None \<Rightarrow> None
      | Some s1 \<Rightarrow>
          (let endpoint = m_endpoint s1;
               s2 = release t (add_owner (Local t) endpoint (emit (HandleRead t) s1))
           in case endpoint of
                None \<Rightarrow> Some (Inr (), signalThreadShouldExit t s2)
              | Some a \<Rightarrow>
                  (case deref endpoint s2 of
                     Inl f \<Rightarrow> Some (Inl f, drop_owner (Local t) endpoint s2)
                   | Inr b \<Rightarrow>
                       (let s3 = emit (EndpointStop t b) s2 in
                        case stop_outcome env t of
                          Returns \<Rightarrow>
                            Some (Inr (),
                              drop_owner (Local t) endpoint (signalThreadShouldExit t s3))
                        | Throws e \<Rightarrow> Some (Inl (Thrown e), drop_owner (Local t) endpoint s3)
                        | NeverReturns \<Rightarrow> None))))"

subsection \<open>Construction and \<open>make_WSDoor\<close>\<close>

text \<open>The object as the constructor leaves it: \<open>m_endpoint\<close> is null, nobody holds
  the mutex, nothing has been logged.\<close>

definition init_world :: "Port \<Rightarrow> world" where
  "init_world p =
     \<lparr>port_cfg = p, m_endpointLock = None, m_endpoint = None, threadShouldExit = False,
      owners = (\<lambda>a. {}), trace = []\<rparr>"

text \<open>
  What can throw while \<open>std::make_unique <WSDoorImp>\<close> runs, in the order of the
  source: the allocation, the base classes \<open>WSDoor\<close> (a \<open>Stoppable\<close>) and \<open>Thread\<close>,
  \<open>std::make_shared<HTTP::Port>\<close>, and \<open>startThread ()\<close> in the constructor body.
\<close>

record ctor_env =
  allocate_door :: "exn option"
  construct_WSDoor :: "exn option"
  construct_Thread :: "exn option"
  make_shared_Port :: "exn option"
  startThread :: "exn option"

definition make_unique_WSDoorImp :: "ctor_env \<Rightarrow> Port \<Rightarrow> exn + world" where
  "make_unique_WSDoorImp c p =
     (case allocate_door c of Some e \<Rightarrow> Inl e | None \<Rightarrow>
      case construct_WSDoor c of Some e \<Rightarrow> Inl e | None \<Rightarrow>
      case construct_Thread c of Some e \<Rightarrow> Inl e | None \<Rightarrow>
      case make_shared_Port c of Some e \<Rightarrow> Inl e | None \<Rightarrow>
      case startThread c of Some e \<Rightarrow> Inl e | None \<Rightarrow>
      Inr (init_world p))"

text \<open>\<open>door\<close> is null until the assignment; \<open>catch (...)\<close> has an empty body. \<open>Inl\<close>
  would be an exception that leaves the function.\<close>

definition make_WSDoor :: "ctor_env \<Rightarrow> Port \<Rightarrow> exn + world option" where
  "make_WSDoor c p =
     (let door = None in
      case make_unique_WSDoorImp c p of
        Inr d \<Rightarrow> Inr (Some d)
      | Inl e \<Rightarrow> Inr door)"

subsection \<open>The two threads, statement by statement\<close>

text \<open>
  \<open>run()\<close> and \<open>onStop()\<close> execute concurrently. Each is cut at its statements: a
  program counter names the statement a thread executes next, and a step executes it on
  the shared \<open>world\<close>. A thread that cannot take its step (the mutex is owned by another
  thread, or the function has been left) has no step.
\<close>

datatype run_pc =
    R_log
  | R_handler
  | R_lock_publish
  | R_publish
  | R_unlock_publish
  | R_unwind exn
  | R_listen
  | R_serving nat
  | R_io_run nat
  | R_lock_reset
  | R_reset
  | R_unlock_reset
  | R_stopped
  | R_returned
  | R_aborted abort

text \<open>
  \<open>R_serving k\<close>: the thread is inside blocking call number \<open>k\<close>, and its step is the end
  of that call. \<open>R_unwind e\<close>: \<open>make_shared\<close> threw \<open>e\<close> inside the scope of the lock,
  whose destructor runs before \<open>e\<close> leaves \<open>run()\<close>.
\<close>

fun run_step :: "env \<Rightarrow> run_pc \<Rightarrow> world \<Rightarrow> (run_pc \<times> world) option" where
  "run_step env R_log s =
     Some (R_handler, emit (WriteLog lsINFO (startup_message (port_cfg s))) s)"
| "run_step env R_handler s =
     (case new_WSServerHandler env of
        Some e \<Rightarrow> Some (R_aborted (Thrown e), s)
      | None \<Rightarrow> Some (R_lock_publish, s))"
| "run_step env R_lock_publish s =
     (case acquire Exec s of None \<Rightarrow> None | Some s' \<Rightarrow> Some (R_publish, s'))"
| "run_step env R_publish s =
     (case make_endpoint env of
        Inl e \<Rightarrow> Some (R_unwind e, s)
      | Inr a \<Rightarrow> Some (R_unlock_publish, assign_endpoint a s))"
| "run_step env (R_unwind e) s = Some (R_aborted (Thrown e), release Exec s)"
| "run_step env R_unlock_publish s = Some (R_listen, release Exec s)"
| "run_step env R_listen s =
     (case deref (m_endpoint s) s of
        Inl f \<Rightarrow> Some (R_aborted f, emit (HandleRead Exec) s)
      | Inr a \<Rightarrow>
          Some (R_serving 0,
            emit (Listen a (ip (port_cfg s)) (port (port_cfg s))) (emit (HandleRead Exec) s)))"
| "run_step env (R_serving k) s =
     (case serve_outcome env k of
        None \<Rightarrow> Some (R_lock_reset, s)
      | Some (websocketpp_exception m) \<Rightarrow>
          Some (R_io_run (Suc k), warn (websocketpp_exception m) s)
      | Some (other_exception m) \<Rightarrow> Some (R_aborted (Thrown (other_exception m)), s))"
| "run_step env (R_io_run k) s =
     (case deref (m_endpoint s) s of
        Inl f \<Rightarrow> Some (R_aborted f, emit (HandleRead Exec) s)
      | Inr a \<Rightarrow> Some (R_serving k, emit (IoRun a) (emit (HandleRead Exec) s)))"
| "run_step env R_lock_reset s =
     (case acquire Exec s of None \<Rightarrow> None | Some s' \<Rightarrow> Some (R_reset, s'))"
| "run_step env R_reset s = Some (R_unlock_reset, reset_endpoint s)"
| "run_step env R_unlock_reset s = Some (R_stopped, release Exec s)"
| "run_step env R_stopped s = Some (R_returned, emit Stopped s)"
| "run_step env R_returned s = None"
| "run_step env (R_aborted f) s = None"

text \<open>The statements of \<open>onStop()\<close>; from the copy on, the program counter carries the
  local \<open>endpoint\<close>.\<close>

datatype stop_pc =
    S_lock
  | S_copy
  | S_unlock "addr option"
  | S_test "addr option"
  | S_stopping "addr option"
  | S_signal "addr option"
  | S_leave "addr option"
  | S_returned
  | S_aborted abort

text \<open>
  \<open>S_stopping p\<close>: the thread is inside \<open>endpoint->stop ()\<close>, and its step is the end of
  that call: the return, or the exception, which leaves \<open>onStop()\<close> through the destructor
  of the local \<open>endpoint\<close>; a call that never returns has no step.
\<close>

fun stop_step :: "env \<Rightarrow> thread \<Rightarrow> stop_pc \<Rightarrow> world \<Rightarrow> (stop_pc \<times> world) option" where
  "stop_step env t S_lock s =
     (case acquire t s of None \<Rightarrow> None | Some s' \<Rightarrow> Some (S_copy, s'))"
| "stop_step env t S_copy s =
     Some (S_unlock (m_endpoint s),
       add_owner (Local t) (m_endpoint s) (emit (HandleRead t) s))"
| "stop_step env t (S_unlock p) s = Some (S_test p, release t s)"
| "stop_step env t (S_test p) s =
     (case p of
        None \<Rightarrow> Some (S_signal p, s)
      | Some a \<Rightarrow>
          (case deref p s of
             Inl f \<Rightarrow> Some (S_aborted f, drop_owner (Local t) p s)
           | Inr b \<Rightarrow> Some (S_stopping p, emit (EndpointStop t b) s)))"
| "stop_step env t (S_stopping p) s =
     (case stop_outcome env t of
        Returns \<Rightarrow> Some (S_signal p, s)
      | Throws e \<Rightarrow> Some (S_aborted (Thrown e), drop_owner (Local t) p s)
      | NeverReturns \<Rightarrow> None)"
| "stop_step env t (S_signal p) s = Some (S_leave p, signalThreadShouldExit t s)"
| "stop_step env t (S_leave p) s = Some (S_returned, drop_owner (Local t) p s)"
| "stop_step env t S_returned s = None"
| "stop_step env t (S_aborted f) s = None"

text \<open>
  The listener with its threads: the thread of \<open>run()\<close> and, for every \<open>n\<close>, one
  activation of \<open>onStop()\<close> on thread \<open>Caller n\<close>, which begins with that thread's first
  step. A schedule is the list of the threads that step, in order; it is refused
  (\<open>None\<close>) when it names a thread that has no step. A thread that a schedule leaves
  inside a blocking call is still blocked there.
\<close>

record system =
  shared :: world
  exec_pc :: run_pc
  caller_pc :: "nat \<Rightarrow> stop_pc"

definition init_system :: "Port \<Rightarrow> system" where
  "init_system p = \<lparr>shared = init_world p, exec_pc = R_log, caller_pc = (\<lambda>n. S_lock)\<rparr>"

fun step :: "env \<Rightarrow> thread \<Rightarrow> system \<Rightarrow> system option" where
  "step env Exec \<sigma> =
     (case run_step env (exec_pc \<sigma>) (shared \<sigma>) of
        None \<Rightarrow> None
      | Some (pc, s) \<Rightarrow> Some (\<sigma>\<lparr>shared := s, exec_pc := pc\<rparr>))"
| "step env (Caller n) \<sigma> =
     (case stop_step env (Caller n) (caller_pc \<sigma> n) (shared \<sigma>) of
        None \<Rightarrow> None
      | Some (pc, s) \<Rightarrow> Some (\<sigma>\<lparr>shared := s, caller_pc := (caller_pc \<sigma>)(n := pc)\<rparr>))"

fun exec :: "env \<Rightarrow> thread list \<Rightarrow> system \<Rightarrow> system option" where
  "exec env [] \<sigma> = Some \<sigma>"
| "exec env (t # ts) \<sigma> =
     (case step env t \<sigma> of None \<Rightarrow> None | Some \<sigma>' \<Rightarrow> exec env ts \<sigma>')"

text \<open>Where \<open>run()\<close> is after a part of it has ended with \<open>r\<close>: at \<open>pc\<close> when the
  part has returned, out of the function when it has not.\<close>

definition pc_after :: "abort + unit \<Rightarrow> run_pc \<Rightarrow> run_pc" where
  "pc_after r pc = (case r of Inl f \<Rightarrow> R_aborted f | Inr u \<Rightarrow> pc)"

subsection \<open>Observations on traces\<close>

text \<open>The thread that performs an event; the events of \<open>run()\<close> that carry no thread
  are performed by \<open>Exec\<close>.\<close>

fun actor :: "event \<Rightarrow> thread" where
  "actor (Lock t) = t"
| "actor (Unlock t) = t"
| "actor (HandleRead t) = t"
| "actor (HandleWrite t p) = t"
| "actor (EndpointStop t a) = t"
| "actor (SignalThreadShouldExit t) = t"
| "actor (WriteLog l m) = Exec"
| "actor (Listen a i p) = Exec"
| "actor (IoRun a) = Exec"
| "actor Stopped = Exec"

text \<open>
  Every event other than the lock operations, paired with whether its thread is inside a
  scope of the lock when it happens; \<open>h\<close> counts, per thread, the scopes entered and not
  yet left.
\<close>

fun holding :: "(thread \<Rightarrow> nat) \<Rightarrow> event list \<Rightarrow> (event \<times> bool) list" where
  "holding h [] = []"
| "holding h (Lock t # es) = holding (h(t := Suc (h t))) es"
| "holding h (Unlock t # es) = holding (h(t := h t - 1)) es"
| "holding h (e # es) = (e, 0 < h (actor e)) # holding h es"

fun is_access :: "event \<Rightarrow> bool" where
  "is_access (HandleRead t) = True"
| "is_access (HandleWrite t p) = True"
| "is_access e = False"

fun is_write :: "event \<Rightarrow> bool" where
  "is_write (HandleWrite t p) = True"
| "is_write e = False"

fun is_stop_call :: "event \<Rightarrow> bool" where
  "is_stop_call (EndpointStop t a) = True"
| "is_stop_call e = False"

fun is_retry :: "event \<Rightarrow> bool" where
  "is_retry (IoRun a) = True"
| "is_retry e = False"

text \<open>The texts of the log lines of a severity, in order.\<close>

fun logged :: "LogSeverity \<Rightarrow> event list \<Rightarrow> string list" where
  "logged l [] = []"
| "logged l (WriteLog l' m # es) = (if l' = l then m # logged l es else logged l es)"
| "logged l (e # es) = logged l es"

text \<open>The events of a run of \<open>run()\<close> whose blocking calls throw
  \<open>websocketpp::exception\<close>s with the messages \<open>ms\<close> and then return.\<close>

definition warning_event :: "string \<Rightarrow> event" where
  "warning_event m = WriteLog lsWARNING (''websocketpp exception: '' @ m)"

definition startup_events :: "Port \<Rightarrow> addr \<Rightarrow> event list" where
  "startup_events p a =
     [WriteLog lsINFO (startup_message p), Lock Exec, HandleWrite Exec (Some a), Unlock Exec]"

definition serve_events :: "Port \<Rightarrow> addr \<Rightarrow> string list \<Rightarrow> event list" where
  "serve_events p a ms =
     [HandleRead Exec, Listen a (ip p) (port p)] @
     concat (map (\<lambda>m. [warning_event m, HandleRead Exec, IoRun a]) ms)"

definition teardown_events :: "event list" where
  "teardown_events = [Lock Exec, HandleWrite Exec None, Unlock Exec, Stopped]"

subsection \<open>What holds in every state of the two threads\<close>

text \<open>The local \<open>endpoint\<close> of an activation of \<open>onStop()\<close>, null before the copy and
  after the function is left.\<close>

fun local_of :: "stop_pc \<Rightarrow> addr option" where
  "local_of (S_unlock p) = p"
| "local_of (S_test p) = p"
| "local_of (S_stopping p) = p"
| "local_of (S_signal p) = p"
| "local_of (S_leave p) = p"
| "local_of pc = None"

text \<open>The statements inside a scope of the lock.\<close>

fun in_scope_run :: "run_pc \<Rightarrow> bool" where
  "in_scope_run R_publish = True"
| "in_scope_run R_unlock_publish = True"
| "in_scope_run (R_unwind e) = True"
| "in_scope_run R_reset = True"
| "in_scope_run R_unlock_reset = True"
| "in_scope_run pc = False"

fun in_scope_stop :: "stop_pc \<Rightarrow> bool" where
  "in_scope_stop S_copy = True"
| "in_scope_stop (S_unlock p) = True"
| "in_scope_stop pc = False"

fun holder :: "system \<Rightarrow> thread \<Rightarrow> bool" where
  "holder \<sigma> Exec = in_scope_run (exec_pc \<sigma>)"
| "holder \<sigma> (Caller n) = in_scope_stop (caller_pc \<sigma> n)"

text \<open>The statements of \<open>run()\<close> between the assignment of \<open>m_endpoint\<close> and its reset,
  the statements before the assignment, and the statements at which \<open>m_endpoint\<close> is
  null.\<close>

fun published_pc :: "run_pc \<Rightarrow> bool" where
  "published_pc R_unlock_publish = True"
| "published_pc R_listen = True"
| "published_pc (R_serving k) = True"
| "published_pc (R_io_run k) = True"
| "published_pc R_lock_reset = True"
| "published_pc R_reset = True"
| "published_pc pc = False"

fun early_pc :: "run_pc \<Rightarrow> bool" where
  "early_pc R_log = True"
| "early_pc R_handler = True"
| "early_pc R_lock_publish = True"
| "early_pc R_publish = True"
| "early_pc pc = False"

fun unpublished_pc :: "run_pc \<Rightarrow> bool" where
  "unpublished_pc (R_unwind e) = True"
| "unpublished_pc R_unlock_reset = True"
| "unpublished_pc R_stopped = True"
| "unpublished_pc R_returned = True"
| "unpublished_pc pc = early_pc pc"

text \<open>The mutex is free and no thread is inside a scope, or it is owned once by the one
  thread that is inside a scope.\<close>

definition lock_inv :: "system \<Rightarrow> bool" where
  "lock_inv \<sigma> \<longleftrightarrow>
     (case m_endpointLock (shared \<sigma>) of
        None \<Rightarrow> \<forall>t. \<not> holder \<sigma> t
      | Some (t, d) \<Rightarrow> d = 1 \<and> (\<forall>t'. holder \<sigma> t' \<longleftrightarrow> t' = t))"

text \<open>\<open>m_endpoint\<close> owns an endpoint exactly between its assignment and its reset.\<close>

definition handle_inv :: "system \<Rightarrow> bool" where
  "handle_inv \<sigma> \<longleftrightarrow>
     (published_pc (exec_pc \<sigma>) \<longrightarrow>
        (\<exists>a. m_endpoint (shared \<sigma>) = Some a \<and> Member \<in> owners (shared \<sigma>) a)) \<and>
     (unpublished_pc (exec_pc \<sigma>) \<longrightarrow> m_endpoint (shared \<sigma>) = None)"

text \<open>A local copy owns its endpoint; before the assignment every local copy is null.\<close>

definition locals_inv :: "system \<Rightarrow> bool" where
  "locals_inv \<sigma> \<longleftrightarrow>
     (\<forall>n a. local_of (caller_pc \<sigma> n) = Some a \<longrightarrow> Local (Caller n) \<in> owners (shared \<sigma>) a) \<and>
     (early_pc (exec_pc \<sigma>) \<longrightarrow> (\<forall>n. local_of (caller_pc \<sigma> n) = None))"

text \<open>No thread has dereferenced a null pointer or called into a destroyed endpoint: a
  function that was left otherwise than by returning was left by an exception, and
  \<open>onStop()\<close> by the exception that its call of \<open>stop ()\<close> threw.\<close>

definition nofault_inv :: "env \<Rightarrow> system \<Rightarrow> bool" where
  "nofault_inv env \<sigma> \<longleftrightarrow>
     (\<forall>f. exec_pc \<sigma> = R_aborted f \<longrightarrow> (\<exists>e. f = Thrown e)) \<and>
     (\<forall>n f. caller_pc \<sigma> n = S_aborted f \<longrightarrow>
        (\<exists>e. f = Thrown e \<and> stop_outcome env (Caller n) = Throws e))"

text \<open>\<open>stopped ()\<close> has been called once when \<open>run()\<close> has returned, and not before.\<close>

definition stopped_inv :: "system \<Rightarrow> bool" where
  "stopped_inv \<sigma> \<longleftrightarrow>
     count_list (trace (shared \<sigma>)) Stopped = (if exec_pc \<sigma> = R_returned then 1 else 0)"

text \<open>The scopes of the lock a thread has entered and not left, counted on a trace.\<close>

fun depth :: "(thread \<Rightarrow> nat) \<Rightarrow> event list \<Rightarrow> thread \<Rightarrow> nat" where
  "depth h [] = h"
| "depth h (Lock t # es) = depth (h(t := Suc (h t))) es"
| "depth h (Unlock t # es) = depth (h(t := h t - 1)) es"
| "depth h (e # es) = depth h es"

definition depth_inv :: "system \<Rightarrow> bool" where
  "depth_inv \<sigma> \<longleftrightarrow>
     (\<forall>t. depth (\<lambda>t. 0) (trace (shared \<sigma>)) t = (if holder \<sigma> t then 1 else 0))"

text \<open>Every call of \<open>stop ()\<close> so far was made outside the lock; every access of
  \<open>m_endpoint\<close> so far was made inside the lock, but for the reads of \<open>run()\<close>.\<close>

definition calls_inv :: "system \<Rightarrow> bool" where
  "calls_inv \<sigma> \<longleftrightarrow>
     (\<forall>(e, held) \<in> set (holding (\<lambda>t. 0) (trace (shared \<sigma>))).
        (is_stop_call e \<longrightarrow> \<not> held) \<and>
        (is_access e \<longrightarrow> (held \<longleftrightarrow> e \<noteq> HandleRead Exec)))"

text \<open>The statements of \<open>run()\<close> after the reset. Once \<open>run()\<close> is there, the trace
  holds the write of null to \<open>m_endpoint\<close>; and when the trace holds \<open>stopped ()\<close>, that
  write comes before it.\<close>

fun after_reset :: "run_pc \<Rightarrow> bool" where
  "after_reset R_unlock_reset = True"
| "after_reset R_stopped = True"
| "after_reset R_returned = True"
| "after_reset pc = False"

definition order_inv :: "system \<Rightarrow> bool" where
  "order_inv \<sigma> \<longleftrightarrow>
     (after_reset (exec_pc \<sigma>) \<longrightarrow> HandleWrite Exec None \<in> set (trace (shared \<sigma>))) \<and>
     (Stopped \<in> set (trace (shared \<sigma>)) \<longrightarrow>
        HandleWrite Exec None \<in> set (takeWhile (\<lambda>e. e \<noteq> Stopped) (trace (shared \<sigma>))))"

text \<open>An invocation of \<open>onStop()\<close> that is past \<open>signalThreadShouldExit ()\<close> has made
  that call, and the flag is set.\<close>

fun signalled :: "stop_pc \<Rightarrow> bool" where
  "signalled (S_leave p) = True"
| "signalled S_returned = True"
| "signalled pc = False"

definition signal_inv :: "system \<Rightarrow> bool" where
  "signal_inv \<sigma> \<longleftrightarrow>
     (\<forall>n. signalled (caller_pc \<sigma> n) \<longrightarrow>
        SignalThreadShouldExit (Caller n) \<in> set (trace (shared \<sigma>)) \<and>
        threadShouldExit (shared \<sigma>))"

text \<open>And an invocation that is not past \<open>signalThreadShouldExit ()\<close> has not made
  that call.\<close>

definition unsignalled_inv :: "system \<Rightarrow> bool" where
  "unsignalled_inv \<sigma> \<longleftrightarrow>
     (\<forall>n. SignalThreadShouldExit (Caller n) \<in> set (trace (shared \<sigma>)) \<longrightarrow>
        signalled (caller_pc \<sigma> n))"

text \<open>The configuration is the one given to the constructor, and the informational line
  built from it has been logged, once, as soon as \<open>run()\<close> is past its first
  statement.\<close>

definition config_inv :: "Port \<Rightarrow> system \<Rightarrow> bool" where
  "config_inv p \<sigma> \<longleftrightarrow>
     port_cfg (shared \<sigma>) = p \<and>
     logged lsINFO (trace (shared \<sigma>)) = (if exec_pc \<sigma> = R_log then [] else [startup_message p])"

definition system_inv :: "env \<Rightarrow> system \<Rightarrow> bool" where
  "system_inv env \<sigma> \<longleftrightarrow>
     lock_inv \<sigma> \<and> handle_inv \<sigma> \<and> locals_inv \<sigma> \<and> nofault_inv env \<sigma> \<and> stopped_inv \<sigma> \<and>
     depth_inv \<sigma> \<and> calls_inv \<sigma> \<and> order_inv \<sigma> \<and> signal_inv \<sigma> \<and> unsignalled_inv \<sigma>"

subsection \<open>Inputs for the examples\<close>

text \<open>The configuration \<open>name = "peer-ws"\<close>, \<open>127.0.0.1:6206\<close>, no admin; and the
  collaborators given by the outcome of the two constructions and the outcomes of the
  first blocking calls, every later call and every \<open>stop ()\<close> returning.\<close>

definition peer_ws :: Port where
  "peer_ws = \<lparr>name = ''peer-ws'', ip = ''127.0.0.1'', port = 6206, allow_admin = False\<rparr>"

definition outcomes_of :: "exn option list \<Rightarrow> nat \<Rightarrow> exn option" where
  "outcomes_of xs k = (if k < length xs then xs ! k else None)"

definition env_of :: "exn option \<Rightarrow> exn + addr \<Rightarrow> exn option list \<Rightarrow> env" where
  "env_of h e xs =
     \<lparr>new_WSServerHandler = h, make_endpoint = e, serve_outcome = outcomes_of xs,
      stop_outcome = (\<lambda>t. Returns)\<rparr>"

text \<open>The collaborators whose blocking calls throw \<open>websocketpp::exception\<close> for ever.\<close>

definition env_racing :: env where
  "env_racing =
     \<lparr>new_WSServerHandler = None, make_endpoint = Inr 0,
      serve_outcome = (\<lambda>k. Some (websocketpp_exception ''race'')),
      stop_outcome = (\<lambda>t. Returns)\<rparr>"

text \<open>The collaborators whose constructions succeed and whose first blocking call
  returns, with the calls of \<open>stop ()\<close> ending as \<open>f\<close> says: every call throws; the
  call made on \<open>Caller 1\<close> throws and the others return; no call returns.\<close>

definition env_stop :: "(thread \<Rightarrow> call_end) \<Rightarrow> env" where
  "env_stop f = (env_of None (Inr 0) [])\<lparr>stop_outcome := f\<rparr>"

definition stop_throws :: "thread \<Rightarrow> call_end" where
  "stop_throws t = Throws (websocketpp_exception ''invalid state'')"

definition second_stop_throws :: "thread \<Rightarrow> call_end" where
  "second_stop_throws t =
     (if t = Caller 1 then Throws (websocketpp_exception ''invalid state'') else Returns)"

definition stop_blocks :: "thread \<Rightarrow> call_end" where
  "stop_blocks t = NeverReturns"

text \<open>The listener while its thread is inside \<open>listen\<close>, the endpoint at \<open>0\<close>.\<close>

definition serving_world :: world where
  "serving_world =
     emit (Listen 0 (ip peer_ws) (port peer_ws))
       (emit (HandleRead Exec)
          (published 0 (emit (WriteLog lsINFO (startup_message peer_ws)) (init_world peer_ws))))"

text \<open>Constructions in which nothing throws, and in which \<open>startThread ()\<close> throws.\<close>

definition ctor_ok :: ctor_env where
  "ctor_ok =
     \<lparr>allocate_door = None, construct_WSDoor = None, construct_Thread = None,
      make_shared_Port = None, startThread = None\<rparr>"

definition ctor_no_thread :: ctor_env where
  "ctor_no_thread = ctor_ok\<lparr>startThread := Some (other_exception ''cannot start thread'')\<rparr>"

text \<open>
  Two schedules. In the first, \<open>run()\<close> reaches \<open>listen\<close>, \<open>onStop()\<close> runs on
  \<open>Caller 0\<close> from beginning to end, the blocking call returns and \<open>run()\<close> finishes,
  and \<open>onStop()\<close> runs a second time, on \<open>Caller 1\<close>. In the second, \<open>run()\<close> reaches
  \<open>listen\<close>, \<open>onStop()\<close> on \<open>Caller 0\<close> copies \<open>m_endpoint\<close> and leaves the lock, and
  before it calls \<open>stop ()\<close> the blocking call returns and \<open>run()\<close> finishes.
\<close>

definition sched_two_stops :: "thread list" where
  "sched_two_stops =
     [Exec, Exec, Exec, Exec, Exec, Exec,
      Caller 0, Caller 0, Caller 0, Caller 0, Caller 0, Caller 0, Caller 0,
      Exec, Exec, Exec, Exec, Exec,
      Caller 1, Caller 1, Caller 1, Caller 1, Caller 1, Caller 1]"

text \<open>
  A third schedule: \<open>run()\<close> reaches \<open>listen\<close> and stays there, \<open>onStop()\<close> runs on
  \<open>Caller 0\<close> from beginning to end, and \<open>onStop()\<close> runs a second time, on
  \<open>Caller 1\<close>, up to the end of its call of \<open>stop ()\<close>.
\<close>

definition sched_second_stop_live :: "thread list" where
  "sched_second_stop_live =
     [Exec, Exec, Exec, Exec, Exec, Exec,
      Caller 0, Caller 0, Caller 0, Caller 0, Caller 0, Caller 0, Caller 0,
      Caller 1, Caller 1, Caller 1, Caller 1, Caller 1]"

definition sched_reset_before_stop :: "thread list" where
  "sched_reset_before_stop =
     [Exec, Exec, Exec, Exec, Exec, Exec,
      Caller 0, Caller 0, Caller 0,
      Exec, Exec, Exec, Exec, Exec]"

section \<open>Lemmas\<close>

subsection \<open>The primitive actions, field by field\<close>

lemma emit_fields [simp]:
  "trace (emit e s) = trace s @ [e]"
  "m_endpoint (emit e s) = m_endpoint s"
  "owners (emit e s) = owners s"
  "m_endpointLock (emit e s) = m_endpointLock s"
  "port_cfg (emit e s) = port_cfg s"
  "threadShouldExit (emit e s) = threadShouldExit s"
  by (simp_all add: emit_def)

lemma release_fields [simp]:
  "trace (release t s) = trace s @ [Unlock t]"
  "m_endpoint (release t s) = m_endpoint s"
  "owners (release t s) = owners s"
  "port_cfg (release t s) = port_cfg s"
  "threadShouldExit (release t s) = threadShouldExit s"
  by (simp_all add: release_def)

lemma release_lock:
  "m_endpointLock (release t s) =
     (case m_endpointLock s of None \<Rightarrow> None
      | Some (t', d) \<Rightarrow> if d \<le> 1 then None else Some (t', d - 1))"
  by (simp add: release_def)

lemma drop_owner_fields [simp]:
  "trace (drop_owner w p s) = trace s"
  "m_endpoint (drop_owner w p s) = m_endpoint s"
  "m_endpointLock (drop_owner w p s) = m_endpointLock s"
  "port_cfg (drop_owner w p s) = port_cfg s"
  "threadShouldExit (drop_owner w p s) = threadShouldExit s"
  by (simp_all add: drop_owner_def split: option.splits)

lemma add_owner_fields [simp]:
  "trace (add_owner w p s) = trace s"
  "m_endpoint (add_owner w p s) = m_endpoint s"
  "m_endpointLock (add_owner w p s) = m_endpointLock s"
  "port_cfg (add_owner w p s) = port_cfg s"
  "threadShouldExit (add_owner w p s) = threadShouldExit s"
  by (simp_all add: add_owner_def split: option.splits)

lemma owners_add_owner:
  "owners (add_owner w p s) a = (if p = Some a then insert w (owners s a) else owners s a)"
  by (simp add: add_owner_def split: option.splits)

lemma owners_drop_owner:
  "owners (drop_owner w p s) a = (if p = Some a then owners s a - {w} else owners s a)"
  by (simp add: drop_owner_def split: option.splits)

lemma assign_endpoint_fields [simp]:
  "trace (assign_endpoint a s) = trace s @ [HandleWrite Exec (Some a)]"
  "m_endpoint (assign_endpoint a s) = Some a"
  "m_endpointLock (assign_endpoint a s) = m_endpointLock s"
  "port_cfg (assign_endpoint a s) = port_cfg s"
  "threadShouldExit (assign_endpoint a s) = threadShouldExit s"
  "owners (assign_endpoint a s) a = {Member}"
  by (simp_all add: assign_endpoint_def)

lemma reset_endpoint_fields [simp]:
  "trace (reset_endpoint s) = trace s @ [HandleWrite Exec None]"
  "m_endpoint (reset_endpoint s) = None"
  "m_endpointLock (reset_endpoint s) = m_endpointLock s"
  "port_cfg (reset_endpoint s) = port_cfg s"
  "threadShouldExit (reset_endpoint s) = threadShouldExit s"
  by (simp_all add: reset_endpoint_def)

lemma signal_fields [simp]:
  "trace (signalThreadShouldExit t s) = trace s @ [SignalThreadShouldExit t]"
  "m_endpoint (signalThreadShouldExit t s) = m_endpoint s"
  "m_endpointLock (signalThreadShouldExit t s) = m_endpointLock s"
  "port_cfg (signalThreadShouldExit t s) = port_cfg s"
  "owners (signalThreadShouldExit t s) = owners s"
  "threadShouldExit (signalThreadShouldExit t s) = True"
  by (simp_all add: signalThreadShouldExit_def)

lemma warn_fields [simp]:
  "trace (warn e s) = trace s @ [warning_event (what e)]"
  "m_endpoint (warn e s) = m_endpoint s"
  "m_endpointLock (warn e s) = m_endpointLock s"
  "port_cfg (warn e s) = port_cfg s"
  "owners (warn e s) = owners s"
  "threadShouldExit (warn e s) = threadShouldExit s"
  by (simp_all add: warn_def warning_event_def)

lemma acquire_free:
  "m_endpointLock s = None \<Longrightarrow>
     acquire t s = Some (emit (Lock t) (s\<lparr>m_endpointLock := Some (t, 1)\<rparr>))"
  by (simp add: acquire_def)

lemma acquire_Some:
  assumes "acquire t s = Some s'"
  shows "trace s' = trace s @ [Lock t]" and "m_endpoint s' = m_endpoint s"
    and "owners s' = owners s" and "port_cfg s' = port_cfg s"
    and "threadShouldExit s' = threadShouldExit s"
proof -
  have "s' = emit (Lock t) (s\<lparr>m_endpointLock := m_endpointLock s'\<rparr>)"
    using assms by (cases "m_endpointLock s") (auto simp: acquire_def emit_def split: if_splits)
  then have *: "s' = s\<lparr>m_endpointLock := m_endpointLock s', trace := trace s @ [Lock t]\<rparr>"
    by (simp add: emit_def)
  show "trace s' = trace s @ [Lock t]" by (subst *) simp
  show "m_endpoint s' = m_endpoint s" by (subst *) simp
  show "owners s' = owners s" by (subst *) simp
  show "port_cfg s' = port_cfg s" by (subst *) simp
  show "threadShouldExit s' = threadShouldExit s" by (subst *) simp
qed

lemma emit_as_upd: "emit e s = s\<lparr>trace := trace s @ [e]\<rparr>"
  by (simp add: emit_def)

lemma warn_as_upd: "warn e s = s\<lparr>trace := trace s @ [warning_event (what e)]\<rparr>"
  by (simp add: warn_def warning_event_def emit_def)

lemma deref_valid:
  "m_endpoint s = Some a \<Longrightarrow> owners s a \<noteq> {} \<Longrightarrow> deref (m_endpoint s) s = Inr a"
  by (simp add: deref_def)

subsection \<open>The retry loop\<close>

lemma loop_ends:
  assumes "m_endpoint s = Some a" "owners s a \<noteq> {}"
    and "\<forall>i<length ms. serve_outcome env (k + i) = Some (websocketpp_exception (ms ! i))"
    and "serve_outcome env (k + length ms) = fin"
    and "\<forall>m. fin \<noteq> Some (websocketpp_exception m)"
  shows "io_service_run_loop env k s =
           Some (case fin of None \<Rightarrow> Inr () | Some e \<Rightarrow> Inl (Thrown e),
                 s\<lparr>trace := trace s @
                    concat (map (\<lambda>m. [HandleRead Exec, IoRun a, warning_event m]) ms) @
                    [HandleRead Exec, IoRun a]\<rparr>)"
  using assms
proof (induction ms arbitrary: k s)
  case Nil
  have d: "deref (m_endpoint s) s = Inr a"
    using Nil.prems(1,2) by (rule deref_valid)
  show ?case
  proof (cases fin)
    case None
    then show ?thesis
      using Nil.prems(4) d
      by (subst io_service_run_loop.simps) (simp add: emit_as_upd)
  next
    case (Some e)
    then obtain m where "e = other_exception m"
      using Nil.prems(5) by (cases e) auto
    then show ?thesis
      using Nil.prems(4) d Some
      by (subst io_service_run_loop.simps) (simp add: emit_as_upd)
  qed
next
  case (Cons m1 ms)
  have d: "deref (m_endpoint s) s = Inr a"
    using Cons.prems(1,2) by (rule deref_valid)
  let ?s' = "warn (websocketpp_exception m1) (emit (IoRun a) (emit (HandleRead Exec) s))"
  have o: "serve_outcome env k = Some (websocketpp_exception m1)"
    using Cons.prems(3) by fastforce
  have step: "io_service_run_loop env k s = io_service_run_loop env (Suc k) ?s'"
    using d o by (subst io_service_run_loop.simps) simp
  have rest: "\<forall>i<length ms. serve_outcome env (Suc k + i) = Some (websocketpp_exception (ms ! i))"
    using Cons.prems(3) by fastforce
  have fin: "serve_outcome env (Suc k + length ms) = fin"
    using Cons.prems(4) by simp
  have v: "m_endpoint ?s' = Some a" "owners ?s' a \<noteq> {}"
    using Cons.prems(1,2) by simp_all
  show ?case
    unfolding step Cons.IH [OF v rest fin Cons.prems(5)]
    by (simp add: warn_as_upd emit_as_upd)
qed

lemma loop_exit_needs_non_ws:
  assumes "io_service_run_loop env k s = Some r"
  shows "m_endpoint s \<noteq> None \<and> deref (m_endpoint s) s \<noteq> Inl UseAfterFree \<longrightarrow>
         (\<exists>j\<ge>k. \<forall>m. serve_outcome env j \<noteq> Some (websocketpp_exception m))"
  using assms
proof (induction rule: io_service_run_loop.raw_induct [rotated 1, consumes 1])
  case (1 f env k s r)
  show ?case
  proof (intro impI, elim conjE)
    assume h: "m_endpoint s \<noteq> None" "deref (m_endpoint s) s \<noteq> Inl UseAfterFree"
    then obtain a where a: "deref (m_endpoint s) s = Inr a" "m_endpoint s = Some a"
      by (auto simp: deref_def split: option.splits if_splits)
    show "\<exists>j\<ge>k. \<forall>m. serve_outcome env j \<noteq> Some (websocketpp_exception m)"
    proof (cases "\<exists>m. serve_outcome env k = Some (websocketpp_exception m)")
      case False
      then show ?thesis by blast
    next
      case True
      then obtain m where m: "serve_outcome env k = Some (websocketpp_exception m)" by blast
      let ?s' = "warn (websocketpp_exception m) (emit (IoRun a) (emit (HandleRead Exec) s))"
      have fr: "f env (Suc k) ?s' = Some r"
        using 1(2) by (simp add: a(1) m)
      have uc: "owners s a \<noteq> {}"
        using a by (simp add: deref_def split: if_splits)
      have "m_endpoint ?s' = Some a" "owners ?s' a \<noteq> {}"
        using a(2) uc by simp_all
      then have "m_endpoint ?s' \<noteq> None \<and> deref (m_endpoint ?s') ?s' \<noteq> Inl UseAfterFree"
        by (simp add: deref_def)
      with 1(1) [OF fr] have "\<exists>j\<ge>Suc k. \<forall>m. serve_outcome env j \<noteq> Some (websocketpp_exception m)"
        by (rule mp)
      then show ?thesis using Suc_leD by blast
    qed
  qed
qed

lemma loop_diverges:
  assumes "\<forall>j\<ge>k. \<exists>m. serve_outcome env j = Some (websocketpp_exception m)"
    and "m_endpoint s = Some a" "owners s a \<noteq> {}"
  shows "io_service_run_loop env k s = None"
proof (cases "io_service_run_loop env k s")
  case None
  then show ?thesis .
next
  case (Some r)
  have "m_endpoint s \<noteq> None \<and> deref (m_endpoint s) s \<noteq> Inl UseAfterFree"
    using assms(2,3) by (simp add: deref_def)
  with loop_exit_needs_non_ws [OF Some] assms(1) show ?thesis by blast
qed

subsection \<open>The \<open>try\<close> block\<close>

lemma warnings_shift:
  "warning_event m0 # concat (map (\<lambda>m. [x, y, warning_event m]) ms) @ [x, y] =
   concat (map (\<lambda>m. [warning_event m, x, y]) (m0 # ms))"
  by (induction ms arbitrary: m0) simp_all

lemma serve_ends:
  assumes "m_endpoint s = Some a" "owners s a \<noteq> {}"
    and "\<forall>i<length ms. serve_outcome env i = Some (websocketpp_exception (ms ! i))"
    and "serve_outcome env (length ms) = fin"
    and "\<forall>m. fin \<noteq> Some (websocketpp_exception m)"
  shows "serve env s =
           Some (case fin of None \<Rightarrow> Inr () | Some e \<Rightarrow> Inl (Thrown e),
                 s\<lparr>trace := trace s @ serve_events (port_cfg s) a ms\<rparr>)"
proof (cases ms)
  case Nil
  have d: "deref (m_endpoint s) s = Inr a"
    using assms(1,2) by (rule deref_valid)
  show ?thesis
  proof (cases fin)
    case None
    then show ?thesis
      using assms(4) d Nil by (simp add: serve_def serve_events_def emit_as_upd)
  next
    case (Some e)
    then obtain m where "e = other_exception m"
      using assms(5) by (cases e) auto
    then show ?thesis
      using assms(4) d Nil Some by (simp add: serve_def serve_events_def emit_as_upd)
  qed
next
  case (Cons m0 ms')
  have d: "deref (m_endpoint s) s = Inr a"
    using assms(1,2) by (rule deref_valid)
  let ?s2 = "warn (websocketpp_exception m0)
     (emit (Listen a (ip (port_cfg s)) (port (port_cfg s))) (emit (HandleRead Exec) s))"
  have o: "serve_outcome env 0 = Some (websocketpp_exception m0)"
    using assms(3) Cons by fastforce
  have step: "serve env s = io_service_run_loop env 1 ?s2"
    using d o by (simp add: serve_def)
  have rest: "\<forall>i<length ms'. serve_outcome env (1 + i) = Some (websocketpp_exception (ms' ! i))"
    using assms(3) Cons by fastforce
  have fin: "serve_outcome env (1 + length ms') = fin"
    using assms(4) Cons by simp
  have v: "m_endpoint ?s2 = Some a" "owners ?s2 a \<noteq> {}"
    using assms(1,2) by simp_all
  show ?thesis
    unfolding step loop_ends [OF v rest fin assms(5)]
    using warnings_shift [of m0 "HandleRead Exec" "IoRun a" ms']
    by (simp add: warn_as_upd emit_as_upd serve_events_def Cons)
qed

lemma serve_diverges:
  assumes "\<forall>j. \<exists>m. serve_outcome env j = Some (websocketpp_exception m)"
    and "m_endpoint s = Some a" "owners s a \<noteq> {}"
  shows "serve env s = None"
proof -
  obtain m where m: "serve_outcome env 0 = Some (websocketpp_exception m)"
    using assms(1) by blast
  let ?s2 = "warn (websocketpp_exception m)
     (emit (Listen a (ip (port_cfg s)) (port (port_cfg s))) (emit (HandleRead Exec) s))"
  have "serve env s = io_service_run_loop env 1 ?s2"
    using assms(2,3) m by (simp add: serve_def deref_def)
  also have "\<dots> = None"
    using assms by (intro loop_diverges [where a = a]) simp_all
  finally show ?thesis .
qed

text \<open>The first outcome that is not a \<open>websocketpp::exception\<close>, when there is one.\<close>

lemma first_non_ws:
  assumes "\<exists>j. \<forall>m. serve_outcome env j \<noteq> Some (websocketpp_exception m)"
  obtains ms where
    "\<forall>i<length ms. serve_outcome env i = Some (websocketpp_exception (ms ! i))"
    "\<forall>m. serve_outcome env (length ms) \<noteq> Some (websocketpp_exception m)"
proof -
  define j where "j = (LEAST j. \<forall>m. serve_outcome env j \<noteq> Some (websocketpp_exception m))"
  have j: "\<forall>m. serve_outcome env j \<noteq> Some (websocketpp_exception m)"
    unfolding j_def using assms by (rule LeastI_ex)
  have before: "\<exists>m. serve_outcome env i = Some (websocketpp_exception m)" if "i < j" for i
    using not_less_Least [of i "\<lambda>j. \<forall>m. serve_outcome env j \<noteq> Some (websocketpp_exception m)"]
      that unfolding j_def by blast
  define ms where "ms = map (\<lambda>i. what (the (serve_outcome env i))) [0..<j]"
  have "length ms = j" by (simp add: ms_def)
  moreover have "serve_outcome env i = Some (websocketpp_exception (ms ! i))" if "i < j" for i
    using before [OF that] that by (auto simp: ms_def)
  ultimately show thesis using that j by metis
qed

subsection \<open>Observations on the events of a run\<close>

lemma logged_append: "logged l (xs @ ys) = logged l xs @ logged l ys"
  by (induction l xs rule: logged.induct) simp_all

lemma logged_serve_events:
  "logged lsWARNING (serve_events p a ms) = map (\<lambda>m. ''websocketpp exception: '' @ m) ms"
  by (induction ms) (simp_all add: serve_events_def warning_event_def)

lemma retries_serve_events: "length (filter is_retry (serve_events p a ms)) = length ms"
  by (induction ms) (simp_all add: serve_events_def warning_event_def)

subsection \<open>\<open>run()\<close> as a whole\<close>

lemma teardown_free:
  assumes "m_endpointLock s = None"
  shows "teardown s =
     Some (Inr (), emit Stopped (release Exec (reset_endpoint
        (emit (Lock Exec) (s\<lparr>m_endpointLock := Some (Exec, 1)\<rparr>)))))"
  using assms by (simp add: teardown_def acquire_free)

lemma teardown_returns:
  assumes "m_endpointLock s = None"
  shows "\<exists>s'. teardown s = Some (Inr (), s') \<and> trace s' = trace s @ teardown_events \<and>
           m_endpoint s' = None \<and> m_endpointLock s' = None \<and> port_cfg s' = port_cfg s \<and>
           threadShouldExit s' = threadShouldExit s"
  using assms
  by (simp add: teardown_free release_lock teardown_events_def)

lemma published_fields [simp]:
  "m_endpoint (published a s1) = Some a"
  "owners (published a s1) a = {Member}"
  "m_endpointLock (published a s1) = None"
  "port_cfg (published a s1) = port_cfg s1"
  "threadShouldExit (published a s1) = threadShouldExit s1"
  "trace (published a s1) = trace s1 @ [Lock Exec, HandleWrite Exec (Some a), Unlock Exec]"
  by (simp_all add: published_def release_lock)

lemma run_body_published:
  assumes "new_WSServerHandler env = None" "make_endpoint env = Inr a" "m_endpointLock s1 = None"
  shows "run_body env s1 =
     (case serve env (published a s1) of
        None \<Rightarrow> None
      | Some (Inl f, s4) \<Rightarrow> Some (Inl f, s4)
      | Some (Inr u, s4) \<Rightarrow> teardown s4)"
  using assms by (simp add: run_body_def acquire_free published_def)

lemma run_body_returns:
  assumes "new_WSServerHandler env = None" "make_endpoint env = Inr a" "m_endpointLock s1 = None"
    and "\<forall>i<length ms. serve_outcome env i = Some (websocketpp_exception (ms ! i))"
    and "serve_outcome env (length ms) = None"
  shows "\<exists>s'. run_body env s1 = Some (Inr (), s') \<and>
           trace s' = trace s1 @ [Lock Exec, HandleWrite Exec (Some a), Unlock Exec] @
              serve_events (port_cfg s1) a ms @ teardown_events \<and>
           m_endpoint s' = None \<and> m_endpointLock s' = None \<and> port_cfg s' = port_cfg s1 \<and>
           threadShouldExit s' = threadShouldExit s1"
proof -
  let ?s3 = "published a s1"
  let ?s4 = "?s3\<lparr>trace := trace ?s3 @ serve_events (port_cfg ?s3) a ms\<rparr>"
  have sv: "serve env ?s3 = Some (Inr (), ?s4)"
    using serve_ends [of ?s3 a ms env None] assms(4,5) by simp
  have r: "run_body env s1 = teardown ?s4"
    by (simp add: run_body_published [OF assms(1-3)] sv)
  have "m_endpointLock ?s4 = None" by simp
  from teardown_returns [OF this] show ?thesis
    unfolding r by auto
qed

lemma run_body_throws:
  assumes "new_WSServerHandler env = None" "make_endpoint env = Inr a" "m_endpointLock s1 = None"
    and "\<forall>i<length ms. serve_outcome env i = Some (websocketpp_exception (ms ! i))"
    and "serve_outcome env (length ms) = Some (other_exception x)"
  shows "run_body env s1 = Some (Inl (Thrown (other_exception x)),
           (published a s1)\<lparr>trace := trace s1 @ [Lock Exec, HandleWrite Exec (Some a), Unlock Exec] @
              serve_events (port_cfg s1) a ms\<rparr>)"
proof -
  let ?s3 = "published a s1"
  have sv: "serve env ?s3 = Some (Inl (Thrown (other_exception x)),
       ?s3\<lparr>trace := trace ?s3 @ serve_events (port_cfg ?s3) a ms\<rparr>)"
    using serve_ends [of ?s3 a ms env "Some (other_exception x)"] assms(4,5) by simp
  show ?thesis
    by (simp add: run_body_published [OF assms(1-3)] sv)
qed

lemma run_body_diverges:
  assumes "new_WSServerHandler env = None" "make_endpoint env = Inr a" "m_endpointLock s1 = None"
    and "\<forall>j. \<exists>m. serve_outcome env j = Some (websocketpp_exception m)"
  shows "run_body env s1 = None"
proof -
  have "serve env (published a s1) = None"
    by (rule serve_diverges [OF assms(4), where a = a]) simp_all
  then show ?thesis
    by (simp add: run_body_published [OF assms(1-3)])
qed

lemma startup_message_peer_ws:
  "startup_message peer_ws = ''Websocket: '' @ [CHR 0x27] @ ''peer-ws'' @ [CHR 0x27] @ '' listening on 127.0.0.1:6206''"
  by (simp add: startup_message_def peer_ws_def to_string.simps digit_char_def)

subsection \<open>Every way in which \<open>run()\<close> ends\<close>

lemma serve_Some:
  assumes "m_endpoint s = Some a" "owners s a \<noteq> {}" and "serve env s = Some (r, s')"
  shows "\<exists>ms. (\<forall>i<length ms. serve_outcome env i = Some (websocketpp_exception (ms ! i))) \<and>
           (\<forall>m. serve_outcome env (length ms) \<noteq> Some (websocketpp_exception m)) \<and>
           r = (case serve_outcome env (length ms) of None \<Rightarrow> Inr () | Some e \<Rightarrow> Inl (Thrown e)) \<and>
           s' = s\<lparr>trace := trace s @ serve_events (port_cfg s) a ms\<rparr>"
proof -
  have "\<exists>j. \<forall>m. serve_outcome env j \<noteq> Some (websocketpp_exception m)"
  proof (rule ccontr)
    assume "\<not> (\<exists>j. \<forall>m. serve_outcome env j \<noteq> Some (websocketpp_exception m))"
    then have "\<forall>j. \<exists>m. serve_outcome env j = Some (websocketpp_exception m)" by blast
    from serve_diverges [OF this assms(1,2)] assms(3) show False by simp
  qed
  then obtain ms where ms:
    "\<forall>i<length ms. serve_outcome env i = Some (websocketpp_exception (ms ! i))"
    "\<forall>m. serve_outcome env (length ms) \<noteq> Some (websocketpp_exception m)"
    by (rule first_non_ws)
  from serve_ends [OF assms(1,2) ms(1) refl ms(2)] assms(3) ms show ?thesis
    by auto
qed

lemma teardown_Some:
  assumes "teardown s = Some (r, s')"
  shows "r = Inr ()" and "trace s' = trace s @ teardown_events" and "m_endpoint s' = None"
    and "port_cfg s' = port_cfg s" and "threadShouldExit s' = threadShouldExit s"
proof -
  from assms obtain s1 where s1: "acquire Exec s = Some s1"
    and r: "r = Inr ()" "s' = emit Stopped (release Exec (reset_endpoint s1))"
    by (auto simp: teardown_def split: option.splits)
  show "r = Inr ()" by (rule r(1))
  show "trace s' = trace s @ teardown_events"
    by (simp add: r(2) acquire_Some(1) [OF s1] teardown_events_def)
  show "m_endpoint s' = None" by (simp add: r(2))
  show "port_cfg s' = port_cfg s" by (simp add: r(2) acquire_Some(4) [OF s1])
  show "threadShouldExit s' = threadShouldExit s" by (simp add: r(2) acquire_Some(5) [OF s1])
qed

text \<open>The four ways: the handler's constructor throws; \<open>make_shared\<close> throws; a blocking
  call throws something that is not a \<open>websocketpp::exception\<close>; a blocking call returns.\<close>

lemma run_body_Some:
  assumes "run_body env s1 = Some (r, s')"
  shows "(\<exists>e. new_WSServerHandler env = Some e \<and> r = Inl (Thrown e) \<and> s' = s1) \<or>
         (\<exists>e. new_WSServerHandler env = None \<and> make_endpoint env = Inl e \<and>
              r = Inl (Thrown e) \<and> trace s' = trace s1 @ [Lock Exec, Unlock Exec] \<and>
              m_endpoint s' = m_endpoint s1) \<or>
         (\<exists>a ms x. new_WSServerHandler env = None \<and> make_endpoint env = Inr a \<and>
              (\<forall>i<length ms. serve_outcome env i = Some (websocketpp_exception (ms ! i))) \<and>
              serve_outcome env (length ms) = Some (other_exception x) \<and>
              r = Inl (Thrown (other_exception x)) \<and>
              trace s' = trace s1 @ [Lock Exec, HandleWrite Exec (Some a), Unlock Exec] @
                 serve_events (port_cfg s1) a ms \<and>
              m_endpoint s' = Some a) \<or>
         (\<exists>a ms. new_WSServerHandler env = None \<and> make_endpoint env = Inr a \<and>
              (\<forall>i<length ms. serve_outcome env i = Some (websocketpp_exception (ms ! i))) \<and>
              serve_outcome env (length ms) = None \<and>
              r = Inr () \<and>
              trace s' = trace s1 @ [Lock Exec, HandleWrite Exec (Some a), Unlock Exec] @
                 serve_events (port_cfg s1) a ms @ teardown_events \<and>
              m_endpoint s' = None)"
proof (cases "new_WSServerHandler env")
  case (Some e)
  then show ?thesis using assms by (simp add: run_body_def)
next
  case None
  then obtain s2 where s2: "acquire Exec s1 = Some s2"
    using assms by (auto simp: run_body_def split: option.splits)
  note a2 = acquire_Some [OF s2]
  show ?thesis
  proof (cases "make_endpoint env")
    case (Inl e)
    then have "r = Inl (Thrown e)" "s' = release Exec s2"
      using assms None s2 by (simp_all add: run_body_def)
    then show ?thesis using None Inl a2 by simp
  next
    case (Inr a)
    let ?s3 = "release Exec (assign_endpoint a s2)"
    have v: "m_endpoint ?s3 = Some a" "owners ?s3 a \<noteq> {}" by simp_all
    have t3: "trace ?s3 = trace s1 @ [Lock Exec, HandleWrite Exec (Some a), Unlock Exec]"
      "port_cfg ?s3 = port_cfg s1"
      by (simp_all add: a2)
    from assms None s2 Inr obtain r4 s4 where sv: "serve env ?s3 = Some (r4, s4)"
      by (auto simp: run_body_def split: option.splits)
    from serve_Some [OF v sv] obtain ms where ms:
      "\<forall>i<length ms. serve_outcome env i = Some (websocketpp_exception (ms ! i))"
      "\<forall>m. serve_outcome env (length ms) \<noteq> Some (websocketpp_exception m)"
      "r4 = (case serve_outcome env (length ms) of None \<Rightarrow> Inr () | Some e \<Rightarrow> Inl (Thrown e))"
      "s4 = ?s3\<lparr>trace := trace ?s3 @ serve_events (port_cfg ?s3) a ms\<rparr>"
      by blast
    have t4: "trace s4 = trace s1 @ [Lock Exec, HandleWrite Exec (Some a), Unlock Exec] @
                 serve_events (port_cfg s1) a ms" "m_endpoint s4 = Some a"
      using t3 by (simp_all add: ms(4))
    show ?thesis
    proof (cases "serve_outcome env (length ms)")
      case fin: None
      then have "r4 = Inr ()" using ms(3) by simp
      then have td: "teardown s4 = Some (r, s')"
        using assms None s2 Inr sv by (simp add: run_body_def)
      from teardown_Some(1-3) [OF td] t4 None Inr ms(1) fin show ?thesis
        by auto
    next
      case fin: (Some e)
      then obtain x where x: "e = other_exception x"
        using ms(2) by (cases e) auto
      have "r4 = Inl (Thrown (other_exception x))" using ms(3) fin x by simp
      then have "r = Inl (Thrown (other_exception x))" "s' = s4"
        using assms None s2 Inr sv by (simp_all add: run_body_def)
      with t4 None Inr ms(1) fin x show ?thesis
        by auto
    qed
  qed
qed

subsection \<open>Who holds the lock at each event\<close>

lemma holding_plain:
  assumes "\<forall>t. Lock t \<notin> set xs \<and> Unlock t \<notin> set xs"
  shows "holding h (xs @ ys) = map (\<lambda>e. (e, 0 < h (actor e))) xs @ holding h ys"
  using assms
proof (induction xs)
  case Nil
  then show ?case by simp
next
  case (Cons e xs)
  have tl: "\<forall>t. Lock t \<notin> set xs \<and> Unlock t \<notin> set xs"
    using Cons.prems by simp
  have hd: "\<forall>t. e \<noteq> Lock t" "\<forall>t. e \<noteq> Unlock t"
    using Cons.prems by auto
  show ?case
    using Cons.IH [OF tl] hd by (cases e) auto
qed

lemma holding_scope:
  assumes "h t = 0" and "\<forall>t'. Lock t' \<notin> set xs \<and> Unlock t' \<notin> set xs"
  shows "holding h (Lock t # xs @ Unlock t # ys) =
           map (\<lambda>e. (e, actor e = t \<or> 0 < h (actor e))) xs @ holding h ys"
proof -
  have "(h(t := Suc (h t)))(t := (h(t := Suc (h t))) t - 1) = h"
    using assms(1) by (simp add: fun_upd_idem)
  then show ?thesis
    using assms by (simp add: holding_plain)
qed

lemma serve_events_plain:
  "\<forall>t. Lock t \<notin> set (serve_events p a ms) \<and> Unlock t \<notin> set (serve_events p a ms)"
  by (auto simp: serve_events_def warning_event_def)

lemma serve_events_accesses:
  "e \<in> set (serve_events p a ms) \<Longrightarrow> is_access e \<Longrightarrow> e = HandleRead Exec"
  by (auto simp: serve_events_def warning_event_def)

lemma Stopped_notin_serve_events: "Stopped \<notin> set (serve_events p a ms)"
  by (auto simp: serve_events_def warning_event_def)

lemma holding_startup_serve:
  assumes "h Exec = 0"
  shows "holding h (WriteLog l m # [Lock Exec, HandleWrite Exec q, Unlock Exec] @
            serve_events p a ms @ ys) =
         (WriteLog l m, False) # (HandleWrite Exec q, True) #
         map (\<lambda>e. (e, 0 < h (actor e))) (serve_events p a ms) @ holding h ys"
proof -
  have "holding h (Lock Exec # [HandleWrite Exec q] @ Unlock Exec # serve_events p a ms @ ys) =
      map (\<lambda>e. (e, actor e = Exec \<or> 0 < h (actor e))) [HandleWrite Exec q] @
      holding h (serve_events p a ms @ ys)"
    by (rule holding_scope [where h = h and t = Exec, OF assms]) simp
  then show ?thesis
    using assms by (simp add: holding_plain [OF serve_events_plain])
qed

lemma holding_teardown:
  assumes "h Exec = 0"
  shows "holding h teardown_events = [(HandleWrite Exec None, True), (Stopped, False)]"
proof -
  have "holding h (Lock Exec # [HandleWrite Exec None] @ Unlock Exec # [Stopped]) =
      map (\<lambda>e. (e, actor e = Exec \<or> 0 < h (actor e))) [HandleWrite Exec None] @
      holding h [Stopped]"
    by (rule holding_scope [where h = h and t = Exec, OF assms]) simp
  then show ?thesis
    using assms by (simp add: teardown_events_def)
qed

lemma run_accesses:
  assumes "run env s = Some (r, s')"
    and "(e, held) \<in> set (holding (\<lambda>t. 0) (drop (length (trace s)) (trace s')))"
    and "is_access e"
  shows "held \<longleftrightarrow> is_write e"
proof -
  let ?s1 = "emit (WriteLog lsINFO (startup_message (port_cfg s))) s"
  let ?new = "drop (length (trace s)) (trace s')"
  let ?h = "\<lambda>t::thread. 0::nat"
  have h0: "?h Exec = 0" by simp
  have rb: "run_body env ?s1 = Some (r, s')" using assms(1) by (simp add: run_def)
  from run_body_Some [OF rb] consider
    (handler) "?new = [WriteLog lsINFO (startup_message (port_cfg s))]"
    | (endpoint) "?new = [WriteLog lsINFO (startup_message (port_cfg s)), Lock Exec, Unlock Exec]"
    | (thrown) a ms where "?new = WriteLog lsINFO (startup_message (port_cfg s)) #
         [Lock Exec, HandleWrite Exec (Some a), Unlock Exec] @ serve_events (port_cfg s) a ms @ []"
    | (returned) a ms where "?new = WriteLog lsINFO (startup_message (port_cfg s)) #
         [Lock Exec, HandleWrite Exec (Some a), Unlock Exec] @ serve_events (port_cfg s) a ms @
         teardown_events"
    by (elim disjE exE conjE) simp_all
  then show ?thesis
  proof cases
    case handler
    then show ?thesis using assms(2,3) by auto
  next
    case endpoint
    then show ?thesis using assms(2,3) by auto
  next
    case (thrown a ms)
    have "holding ?h ?new = (WriteLog lsINFO (startup_message (port_cfg s)), False) #
         (HandleWrite Exec (Some a), True) #
         map (\<lambda>e. (e, 0 < ?h (actor e))) (serve_events (port_cfg s) a ms) @ holding ?h []"
      unfolding thrown by (rule holding_startup_serve [OF h0])
    then show ?thesis
      using assms(2,3) serve_events_accesses [of e "port_cfg s" a ms] by auto
  next
    case (returned a ms)
    have "holding ?h ?new = (WriteLog lsINFO (startup_message (port_cfg s)), False) #
         (HandleWrite Exec (Some a), True) #
         map (\<lambda>e. (e, 0 < ?h (actor e))) (serve_events (port_cfg s) a ms) @
         holding ?h teardown_events"
      unfolding returned by (rule holding_startup_serve [OF h0])
    then show ?thesis
      using assms(2,3) serve_events_accesses [of e "port_cfg s" a ms]
      by (auto simp: holding_teardown [OF h0])
  qed
qed

subsection \<open>\<open>onStop()\<close> as a whole\<close>

lemma onStop_Some:
  assumes "onStop env t s = Some (r, s')"
  shows "r = (case m_endpoint s of
                None \<Rightarrow> Inr ()
              | Some a \<Rightarrow> (case stop_outcome env t of Throws e \<Rightarrow> Inl (Thrown e) | _ \<Rightarrow> Inr ()))"
    and "trace s' = trace s @ [Lock t, HandleRead t, Unlock t] @
           (case m_endpoint s of None \<Rightarrow> [] | Some a \<Rightarrow> [EndpointStop t a]) @
           (case r of Inl f \<Rightarrow> [] | Inr u \<Rightarrow> [SignalThreadShouldExit t])"
    and "threadShouldExit s' = (case r of Inl f \<Rightarrow> threadShouldExit s | Inr u \<Rightarrow> True)"
    and "m_endpoint s' = m_endpoint s" and "port_cfg s' = port_cfg s"
    and "m_endpoint s \<noteq> None \<Longrightarrow> stop_outcome env t \<noteq> NeverReturns"
proof -
  from assms obtain s1 where s1: "acquire t s = Some s1"
    by (auto simp: onStop_def split: option.splits)
  note a1 = acquire_Some [OF s1]
  let ?s2 = "release t (add_owner (Local t) (m_endpoint s1) (emit (HandleRead t) s1))"
  have d: "deref (Some a) ?s2 = Inr a" if "m_endpoint s1 = Some a" for a
    using that by (simp add: deref_def owners_add_owner)
  have r: "Some (r, s') = (case m_endpoint s1 of
        None \<Rightarrow> Some (Inr (), signalThreadShouldExit t ?s2)
      | Some a \<Rightarrow>
          (case stop_outcome env t of
             Returns \<Rightarrow> Some (Inr (), drop_owner (Local t) (Some a)
               (signalThreadShouldExit t (emit (EndpointStop t a) ?s2)))
           | Throws e \<Rightarrow>
               Some (Inl (Thrown e), drop_owner (Local t) (Some a) (emit (EndpointStop t a) ?s2))
           | NeverReturns \<Rightarrow> None))"
    using assms s1 d by (auto simp: onStop_def Let_def split: option.splits call_end.splits)
  show "r = (case m_endpoint s of
                None \<Rightarrow> Inr ()
              | Some a \<Rightarrow> (case stop_outcome env t of Throws e \<Rightarrow> Inl (Thrown e) | _ \<Rightarrow> Inr ()))"
    using r a1 by (auto split: option.splits call_end.splits)
  show "trace s' = trace s @ [Lock t, HandleRead t, Unlock t] @
           (case m_endpoint s of None \<Rightarrow> [] | Some a \<Rightarrow> [EndpointStop t a]) @
           (case r of Inl f \<Rightarrow> [] | Inr u \<Rightarrow> [SignalThreadShouldExit t])"
    using r a1 by (auto split: option.splits call_end.splits)
  show "threadShouldExit s' = (case r of Inl f \<Rightarrow> threadShouldExit s | Inr u \<Rightarrow> True)"
    using r a1 by (auto split: option.splits call_end.splits)
  show "m_endpoint s' = m_endpoint s" using r a1 by (auto split: option.splits call_end.splits)
  show "port_cfg s' = port_cfg s" using r a1 by (auto split: option.splits call_end.splits)
  show "stop_outcome env t \<noteq> NeverReturns" if "m_endpoint s \<noteq> None"
    using r a1 that by (auto split: option.splits call_end.splits)
qed

lemma onStop_free:
  assumes "m_endpointLock s = None"
  shows "onStop env t s = None \<longleftrightarrow> m_endpoint s \<noteq> None \<and> stop_outcome env t = NeverReturns"
  using assms
  by (auto simp: onStop_def acquire_free Let_def deref_def owners_add_owner
      split: option.splits sum.splits call_end.splits)

lemma holding_onStop:
  assumes "h t = 0"
  shows "holding h ([Lock t, HandleRead t, Unlock t] @ es) = (HandleRead t, True) # holding h es"
proof -
  have "holding h (Lock t # [HandleRead t] @ Unlock t # es) =
      map (\<lambda>e. (e, actor e = t \<or> 0 < h (actor e))) [HandleRead t] @ holding h es"
    by (rule holding_scope [where h = h and t = t, OF assms]) simp
  then show ?thesis
    using assms by simp
qed

subsection \<open>Concrete runs\<close>

lemma run_peer_ws_clean:
  "run (env_of None (Inr 0) []) (init_world peer_ws) =
     Some (Inr (),
       \<lparr>port_cfg = peer_ws, m_endpointLock = None, m_endpoint = None,
        threadShouldExit = False, owners = (\<lambda>a. {}),
        trace = [WriteLog lsINFO (startup_message peer_ws), Lock Exec,
                 HandleWrite Exec (Some 0), Unlock Exec, HandleRead Exec,
                 Listen 0 ''127.0.0.1'' 6206, Lock Exec, HandleWrite Exec None,
                 Unlock Exec, Stopped]\<rparr>)"
  by (simp add: run_def run_body_def serve_def teardown_def acquire_def release_def
      assign_endpoint_def reset_endpoint_def drop_owner_def emit_def deref_def
      init_world_def env_of_def outcomes_of_def peer_ws_def fun_upd_idem)

lemma onStop_initial:
  "onStop env (Caller 0) (init_world peer_ws) =
     Some (Inr (),
       \<lparr>port_cfg = peer_ws, m_endpointLock = None, m_endpoint = None,
        threadShouldExit = True, owners = (\<lambda>a. {}),
        trace = [Lock (Caller 0), HandleRead (Caller 0), Unlock (Caller 0),
                 SignalThreadShouldExit (Caller 0)]\<rparr>)"
  by (simp add: onStop_def acquire_def release_def add_owner_def emit_def
      signalThreadShouldExit_def init_world_def)

subsection \<open>What the collaborators decide\<close>

lemma env_cases [case_names handler endpoint thrown returned forever]:
  obtains
    (handler) e where "new_WSServerHandler env = Some e"
  | (endpoint) e where "new_WSServerHandler env = None" "make_endpoint env = Inl e"
  | (thrown) a ms x where "new_WSServerHandler env = None" "make_endpoint env = Inr a"
      "\<forall>i<length ms. serve_outcome env i = Some (websocketpp_exception (ms ! i))"
      "serve_outcome env (length ms) = Some (other_exception x)"
  | (returned) a ms where "new_WSServerHandler env = None" "make_endpoint env = Inr a"
      "\<forall>i<length ms. serve_outcome env i = Some (websocketpp_exception (ms ! i))"
      "serve_outcome env (length ms) = None"
  | (forever) a where "new_WSServerHandler env = None" "make_endpoint env = Inr a"
      "\<forall>j. \<exists>m. serve_outcome env j = Some (websocketpp_exception m)"
proof (cases "new_WSServerHandler env")
  case (Some e)
  then show thesis by (rule handler)
next
  case None
  show thesis
  proof (cases "make_endpoint env")
    case (Inl e)
    with None show thesis by (rule endpoint)
  next
    case (Inr a)
    show thesis
    proof (cases "\<exists>j. \<forall>m. serve_outcome env j \<noteq> Some (websocketpp_exception m)")
      case False
      then have "\<forall>j. \<exists>m. serve_outcome env j = Some (websocketpp_exception m)" by blast
      with None Inr show thesis by (rule forever)
    next
      case True
      then obtain ms where ms:
        "\<forall>i<length ms. serve_outcome env i = Some (websocketpp_exception (ms ! i))"
        "\<forall>m. serve_outcome env (length ms) \<noteq> Some (websocketpp_exception m)"
        by (rule first_non_ws)
      show thesis
      proof (cases "serve_outcome env (length ms)")
        case fin: None
        from None Inr ms(1) fin show thesis by (rule returned)
      next
        case fin: (Some e)
        then obtain x where "e = other_exception x"
          using ms(2) by (cases e) auto
        with fin have "serve_outcome env (length ms) = Some (other_exception x)" by simp
        with None Inr ms(1) show thesis by (rule thrown)
      qed
    qed
  qed
qed

text \<open>With the mutex free, \<open>run()\<close> from the handler on reads the configuration and
  nothing else of the state: not the log, not the exit flag.\<close>

lemma run_body_same_control:
  assumes "m_endpointLock s = None" "m_endpointLock w = None" "port_cfg s = port_cfg w"
  shows "(run_body env s = None \<and> run_body env w = None) \<or>
         (\<exists>r s' w'. run_body env s = Some (r, s') \<and> run_body env w = Some (r, w') \<and>
             drop (length (trace s)) (trace s') = drop (length (trace w)) (trace w') \<and>
             threadShouldExit s' = threadShouldExit s \<and>
             threadShouldExit w' = threadShouldExit w)"
proof (cases env rule: env_cases)
  case (handler e)
  then show ?thesis by (simp add: run_body_def)
next
  case (endpoint e)
  then show ?thesis using assms by (simp add: run_body_def acquire_free)
next
  case (thrown a ms x)
  show ?thesis
    using assms(3)
    by (simp add: run_body_throws [OF thrown(1,2) assms(1) thrown(3,4)]
        run_body_throws [OF thrown(1,2) assms(2) thrown(3,4)])
next
  case (returned a ms)
  from run_body_returns [OF returned(1,2) assms(1) returned(3,4)]
    run_body_returns [OF returned(1,2) assms(2) returned(3,4)]
  show ?thesis using assms(3) by auto
next
  case (forever a)
  then show ?thesis
    using assms by (simp add: run_body_diverges)
qed

lemma run_terminates_iff:
  assumes "m_endpointLock s = None"
  shows "run env s \<noteq> None \<longleftrightarrow>
         new_WSServerHandler env \<noteq> None \<or> (\<exists>e. make_endpoint env = Inl e) \<or>
         (\<exists>j. \<forall>m. serve_outcome env j \<noteq> Some (websocketpp_exception m))"
proof -
  let ?s1 = "emit (WriteLog lsINFO (startup_message (port_cfg s))) s"
  have free: "m_endpointLock ?s1 = None" using assms by simp
  show ?thesis
  proof (cases env rule: env_cases)
    case (handler e)
    then show ?thesis by (simp add: run_def run_body_def)
  next
    case (endpoint e)
    then show ?thesis using free by (simp add: run_def run_body_def acquire_free)
  next
    case (thrown a ms x)
    have "\<forall>m. serve_outcome env (length ms) \<noteq> Some (websocketpp_exception m)"
      using thrown(4) by simp
    then show ?thesis
      using run_body_throws [OF thrown(1,2) free thrown(3,4)] by (auto simp: run_def)
  next
    case (returned a ms)
    have "\<forall>m. serve_outcome env (length ms) \<noteq> Some (websocketpp_exception m)"
      using returned(4) by simp
    then show ?thesis
      using run_body_returns [OF returned(1,2) free returned(3,4)] by (auto simp: run_def)
  next
    case (forever a)
    then show ?thesis
      using run_body_diverges [OF forever(1,2) free forever(3)] by (auto simp: run_def)
  qed
qed

subsection \<open>The decimal digits\<close>

lemma digit_char_digit: "d < 10 \<Longrightarrow> digit_char d \<in> set ''0123456789''"
  unfolding digit_char_def by (rule nth_mem) simp

lemma to_string_last: "to_string n \<noteq> [] \<and> last (to_string n) = digit_char (n mod 10)"
  by (subst (1 2) to_string.simps) simp

lemma startup_message_last:
  "last (startup_message p) = CHR '')'' \<longleftrightarrow> allow_admin p"
proof (cases "allow_admin p")
  case True
  then show ?thesis by (simp add: startup_message_def)
next
  case False
  have "digit_char (unat (port p) mod 10) \<in> set ''0123456789''"
    by (rule digit_char_digit) simp
  then have "digit_char (unat (port p) mod 10) \<noteq> CHR '')''" by auto
  then show ?thesis
    using False to_string_last [of "unat (port p)"] by (simp add: startup_message_def)
qed

lemma to_string_inj: "to_string m = to_string n \<Longrightarrow> m = n"
proof (induction m arbitrary: n rule: to_string.induct)
  case (1 m)
  have dist: "distinct ''0123456789''" by simp
  have dig: "digit_char a = digit_char b \<longleftrightarrow> a = b" if "a < 10" "b < 10" for a b
    unfolding digit_char_def using that dist by (simp add: nth_eq_iff_index_eq)
  have long: "to_string k \<noteq> [digit_char d]" if "\<not> k < 10" for k d
  proof -
    have "to_string (k div 10) \<noteq> []" using to_string_last by blast
    then show ?thesis
      using that by (subst to_string.simps) simp
  qed
  show ?case
  proof (cases "m < 10")
    case True
    show ?thesis
    proof (cases "n < 10")
      case n: True
      have "to_string m = [digit_char m]" "to_string n = [digit_char n]"
        using True n by (simp_all add: to_string.simps)
      with "1.prems" dig [OF True n] show ?thesis by simp
    next
      case False
      have "to_string m = [digit_char m]" using True by (simp add: to_string.simps)
      with "1.prems" long [OF False, of m] show ?thesis by simp
    qed
  next
    case False
    show ?thesis
    proof (cases "n < 10")
      case True
      have "to_string n = [digit_char n]" using True by (simp add: to_string.simps)
      with "1.prems" long [OF False, of n] show ?thesis by simp
    next
      case n: False
      have "to_string m = to_string (m div 10) @ [digit_char (m mod 10)]"
        using False by (subst to_string.simps) simp
      moreover have "to_string n = to_string (n div 10) @ [digit_char (n mod 10)]"
        using n by (subst to_string.simps) simp
      ultimately have e: "to_string (m div 10) = to_string (n div 10)"
        "digit_char (m mod 10) = digit_char (n mod 10)"
        using "1.prems" by simp_all
      have "m div 10 = n div 10" using "1.IH" [OF False e(1)] .
      moreover have "m mod 10 = n mod 10" using e(2) dig [of "m mod 10" "n mod 10"] by simp
      ultimately show ?thesis by (metis div_mult_mod_eq)
    qed
  qed
qed

lemma to_string_no_colon: "CHR '':'' \<notin> set (to_string n)"
proof (induction n rule: to_string.induct)
  case (1 n)
  have d: "digit_char k \<noteq> CHR '':''" if "k < 10" for k
    using digit_char_digit [OF that] by auto
  show ?case
  proof (cases "n < 10")
    case True
    then show ?thesis using d [OF True] by (simp add: to_string.simps)
  next
    case False
    have "to_string n = to_string (n div 10) @ [digit_char (n mod 10)]"
      using False by (subst to_string.simps) simp
    then show ?thesis using "1.IH" [OF False] d [of "n mod 10"] by simp
  qed
qed

lemma split_at_first:
  assumes "c \<notin> set as" "c \<notin> set bs" and "as @ c # xs = bs @ c # ys"
  shows "as = bs \<and> xs = ys"
  using assms
proof (induction as arbitrary: bs)
  case Nil
  then show ?case by (cases bs) auto
next
  case (Cons a as)
  then show ?case by (cases bs) auto
qed

lemma split_at_last:
  assumes "xs @ c # ys = xs' @ c # ys'" and "c \<notin> set ys" "c \<notin> set ys'"
  shows "xs = xs' \<and> ys = ys'"
proof -
  have "rev ys @ c # rev xs = rev ys' @ c # rev xs'"
    using arg_cong [OF assms(1), of rev] by simp
  moreover have "c \<notin> set (rev ys)" "c \<notin> set (rev ys')" using assms(2,3) by simp_all
  ultimately have "rev ys = rev ys' \<and> rev xs = rev xs'"
    by (intro split_at_first)
  then show ?thesis by simp
qed

lemma startup_message_determines:
  assumes "startup_message p = startup_message q"
    and "name p = name q \<or> (ip p = ip q \<and> port p = port q)"
  shows "name p = name q \<and> ip p = ip q \<and> port p = port q \<and> allow_admin p = allow_admin q"
proof -
  have adm: "allow_admin p = allow_admin q"
    using startup_message_last [of p] startup_message_last [of q] assms(1) by simp
  let ?tail = "\<lambda>p. ip p @ CHR '':'' # to_string (unat (port p))"
  have eq: "[CHR 0x27] @ name p @ [CHR 0x27] @ '' listening on '' @ ?tail p =
            [CHR 0x27] @ name q @ [CHR 0x27] @ '' listening on '' @ ?tail q"
    using assms(1) adm by (simp add: startup_message_def)
  from assms(2) show ?thesis
  proof
    assume n: "name p = name q"
    then have "?tail p = ?tail q" using eq by simp
    from split_at_last [OF this to_string_no_colon to_string_no_colon]
    have "ip p = ip q" "to_string (unat (port p)) = to_string (unat (port q))" by simp_all
    then have "ip p = ip q" "port p = port q"
      using to_string_inj by (auto simp: word_unat_eq_iff)
    with n adm show ?thesis by simp
  next
    assume "ip p = ip q \<and> port p = port q"
    then have t: "ip p = ip q" "port p = port q" by simp_all
    then have "name p = name q" using eq by simp
    with t adm show ?thesis by simp
  qed
qed

lemma logged_drop_run_body:
  assumes "run_body env s1 = Some (r, s')"
  shows "logged lsINFO (drop (length (trace s1)) (trace s')) = []"
proof -
  have plain: "logged lsINFO (serve_events p a ms) = []" for p a ms
    by (induction ms) (simp_all add: serve_events_def warning_event_def)
  from run_body_Some [OF assms] show ?thesis
    by (elim disjE exE conjE)
       (simp_all add: logged_append plain teardown_events_def)
qed

subsection \<open>\<open>onStop()\<close> when nobody holds the mutex\<close>

lemma onStop_unlocks:
  assumes "m_endpointLock s = None" and "onStop env t s = Some (r, s')"
  shows "m_endpointLock s' = None"
proof -
  let ?s1 = "emit (Lock t) (s\<lparr>m_endpointLock := Some (t, 1)\<rparr>)"
  let ?s2 = "release t (add_owner (Local t) (m_endpoint ?s1) (emit (HandleRead t) ?s1))"
  have l2: "m_endpointLock ?s2 = None" by (simp add: release_lock)
  show ?thesis
    using assms(2) l2 unfolding onStop_def acquire_free [OF assms(1)]
    by (auto simp: Let_def split: option.splits sum.splits call_end.splits)
qed

lemma onStop_returns:
  assumes "m_endpointLock s = None"
    and "m_endpoint s = None \<or> stop_outcome env t = Returns"
  shows "\<exists>s'. onStop env t s = Some (Inr (), s') \<and>
           trace s' = trace s @ [Lock t, HandleRead t, Unlock t] @
             (case m_endpoint s of None \<Rightarrow> [] | Some a \<Rightarrow> [EndpointStop t a]) @
             [SignalThreadShouldExit t] \<and>
           threadShouldExit s' \<and> m_endpoint s' = m_endpoint s \<and> port_cfg s' = port_cfg s \<and>
           m_endpointLock s' = None"
proof -
  from onStop_free [OF assms(1), of env t] assms(2)
  obtain r s' where s': "onStop env t s = Some (r, s')"
    by (cases "onStop env t s") auto
  from onStop_Some(1) [OF s'] assms(2) have r: "r = Inr ()"
    by (auto split: option.splits)
  from onStop_Some(2-5) [OF s'] onStop_unlocks [OF assms(1) s'] s' show ?thesis
    unfolding r by simp
qed

lemma onStop_throws:
  assumes "m_endpointLock s = None"
    and "m_endpoint s = Some a" and "stop_outcome env t = Throws e"
  shows "\<exists>s'. onStop env t s = Some (Inl (Thrown e), s') \<and>
           trace s' = trace s @ [Lock t, HandleRead t, Unlock t, EndpointStop t a] \<and>
           threadShouldExit s' = threadShouldExit s \<and> m_endpoint s' = m_endpoint s \<and>
           port_cfg s' = port_cfg s \<and> m_endpointLock s' = None"
proof -
  from onStop_free [OF assms(1), of env t] assms(3)
  obtain r s' where s': "onStop env t s = Some (r, s')"
    by (cases "onStop env t s") auto
  from onStop_Some(1) [OF s'] assms(2,3) have r: "r = Inl (Thrown e)"
    by simp
  from onStop_Some(2-5) [OF s'] onStop_unlocks [OF assms(1) s'] s' show ?thesis
    unfolding r by (simp add: assms(2))
qed

lemma serving_world_fields:
  "m_endpointLock serving_world = None" "m_endpoint serving_world = Some 0"
  "trace serving_world =
     [WriteLog lsINFO (startup_message peer_ws), Lock Exec, HandleWrite Exec (Some 0),
      Unlock Exec, HandleRead Exec, Listen 0 ''127.0.0.1'' 6206]"
  by (simp_all add: serving_world_def init_world_def peer_ws_def)

subsection \<open>Steps of the callers leave \<open>run()\<close> where it is\<close>

lemma step_Caller_exec_pc:
  "step env (Caller n) \<sigma> = Some \<sigma>' \<Longrightarrow> exec_pc \<sigma>' = exec_pc \<sigma>"
  by (auto split: option.splits)

lemma exec_callers_exec_pc:
  assumes "exec env sched \<sigma> = Some \<sigma>'" and "Exec \<notin> set sched"
  shows "exec_pc \<sigma>' = exec_pc \<sigma>"
  using assms
proof (induction sched arbitrary: \<sigma>)
  case Nil
  then show ?case by simp
next
  case (Cons t ts)
  from Cons.prems(2) obtain n where t: "t = Caller n" by (cases t) auto
  from Cons.prems(1) obtain \<sigma>1 where s1: "step env t \<sigma> = Some \<sigma>1" "exec env ts \<sigma>1 = Some \<sigma>'"
    by (auto split: option.splits)
  have "exec_pc \<sigma>' = exec_pc \<sigma>1" using Cons.IH [OF s1(2)] Cons.prems(2) by simp
  then show ?case using step_Caller_exec_pc s1(1) t by metis
qed

subsection \<open>Steps of the two threads\<close>

lemma step_Exec:
  assumes "step env Exec \<sigma> = Some \<sigma>'"
  obtains pc s where "run_step env (exec_pc \<sigma>) (shared \<sigma>) = Some (pc, s)"
    "\<sigma>' = \<sigma>\<lparr>shared := s, exec_pc := pc\<rparr>"
  using assms by (auto split: option.splits)

lemma step_Caller:
  assumes "step env (Caller n) \<sigma> = Some \<sigma>'"
  obtains pc s where "stop_step env (Caller n) (caller_pc \<sigma> n) (shared \<sigma>) = Some (pc, s)"
    "\<sigma>' = \<sigma>\<lparr>shared := s, caller_pc := (caller_pc \<sigma>)(n := pc)\<rparr>"
  using assms by (auto split: option.splits)

text \<open>What a step of \<open>run()\<close> appends to the trace.\<close>

lemma run_step_Stopped:
  assumes "run_step env pc s = Some (pc', s')"
  shows "count_list (trace s') Stopped =
           count_list (trace s) Stopped + (if pc = R_stopped then 1 else 0)"
    and "pc' = R_returned \<longleftrightarrow> pc = R_stopped"
  using assms
  by (cases pc; auto simp: acquire_Some warning_event_def
        split: option.splits sum.splits exn.splits)+

lemma stop_step_Stopped:
  assumes "stop_step env t pc s = Some (pc', s')"
  shows "count_list (trace s') Stopped = count_list (trace s) Stopped"
  using assms
  by (cases pc) (auto simp: acquire_Some split: option.splits sum.splits call_end.splits)

lemma stopped_inv_step:
  assumes "step env t \<sigma> = Some \<sigma>'" and "stopped_inv \<sigma>"
  shows "stopped_inv \<sigma>'"
proof (cases t)
  case Exec
  with assms(1) have "step env Exec \<sigma> = Some \<sigma>'" by simp
  then obtain pc s where s: "run_step env (exec_pc \<sigma>) (shared \<sigma>) = Some (pc, s)"
    "\<sigma>' = \<sigma>\<lparr>shared := s, exec_pc := pc\<rparr>"
    by (rule step_Exec)
  have "exec_pc \<sigma> \<noteq> R_returned" using s(1) by auto
  then show ?thesis
    using assms(2) run_step_Stopped [OF s(1)] by (simp add: stopped_inv_def s(2))
next
  case (Caller n)
  with assms(1) have "step env (Caller n) \<sigma> = Some \<sigma>'" by simp
  then obtain pc s where s: "stop_step env (Caller n) (caller_pc \<sigma> n) (shared \<sigma>) = Some (pc, s)"
    "\<sigma>' = \<sigma>\<lparr>shared := s, caller_pc := (caller_pc \<sigma>)(n := pc)\<rparr>"
    by (rule step_Caller)
  show ?thesis
    using assms(2) stop_step_Stopped [OF s(1)] by (simp add: stopped_inv_def s(2))
qed

lemma all_thread: "(\<forall>t. P t) \<longleftrightarrow> P Exec \<and> (\<forall>n. P (Caller n))"
  by (metis thread.exhaust)

lemma lock_inv_alt:
  "lock_inv \<sigma> \<longleftrightarrow>
     (case m_endpointLock (shared \<sigma>) of
        None \<Rightarrow> \<not> in_scope_run (exec_pc \<sigma>) \<and> (\<forall>n. \<not> in_scope_stop (caller_pc \<sigma> n))
      | Some (Exec, d) \<Rightarrow>
          d = 1 \<and> in_scope_run (exec_pc \<sigma>) \<and> (\<forall>n. \<not> in_scope_stop (caller_pc \<sigma> n))
      | Some (Caller m, d) \<Rightarrow>
          d = 1 \<and> \<not> in_scope_run (exec_pc \<sigma>) \<and>
          (\<forall>n. in_scope_stop (caller_pc \<sigma> n) \<longleftrightarrow> n = m))"
  by (auto simp: lock_inv_def all_thread split: option.splits thread.splits)

text \<open>The lock and the scopes along a step of \<open>run()\<close>: the step enters a scope, or
  leaves one, or does neither.\<close>

lemma run_step_lock:
  assumes "run_step env pc s = Some (pc', s')"
  shows "(\<not> in_scope_run pc \<and> in_scope_run pc' \<and>
            (m_endpointLock s = None \<or> (\<exists>d. m_endpointLock s = Some (Exec, d))) \<and>
            (m_endpointLock s = None \<longrightarrow> m_endpointLock s' = Some (Exec, 1))) \<or>
         (in_scope_run pc \<and> \<not> in_scope_run pc' \<and> m_endpointLock s' = m_endpointLock (release Exec s)) \<or>
         (in_scope_run pc = in_scope_run pc' \<and> m_endpointLock s' = m_endpointLock s)"
  using assms
  by (cases pc) (auto simp: acquire_def split: option.splits sum.splits exn.splits if_splits)

lemma stop_step_lock:
  assumes "stop_step env t pc s = Some (pc', s')"
  shows "(\<not> in_scope_stop pc \<and> in_scope_stop pc' \<and>
            (m_endpointLock s = None \<or> (\<exists>d. m_endpointLock s = Some (t, d))) \<and>
            (m_endpointLock s = None \<longrightarrow> m_endpointLock s' = Some (t, 1))) \<or>
         (in_scope_stop pc \<and> \<not> in_scope_stop pc' \<and> m_endpointLock s' = m_endpointLock (release t s)) \<or>
         (in_scope_stop pc = in_scope_stop pc' \<and> m_endpointLock s' = m_endpointLock s)"
  using assms
  by (cases pc) (auto simp: acquire_def split: option.splits sum.splits call_end.splits if_splits)

lemma lock_inv_step:
  assumes "step env t \<sigma> = Some \<sigma>'" and "lock_inv \<sigma>"
  shows "lock_inv \<sigma>'"
proof (cases t)
  case Exec
  with assms(1) have "step env Exec \<sigma> = Some \<sigma>'" by simp
  then obtain pc s where s: "run_step env (exec_pc \<sigma>) (shared \<sigma>) = Some (pc, s)"
    "\<sigma>' = \<sigma>\<lparr>shared := s, exec_pc := pc\<rparr>"
    by (rule step_Exec)
  from run_step_lock [OF s(1)] assms(2) show ?thesis
    unfolding lock_inv_alt s(2)
    by (auto simp: release_lock split: option.splits thread.splits if_splits)
       (metis thread.exhaust)+
next
  case (Caller n)
  with assms(1) have "step env (Caller n) \<sigma> = Some \<sigma>'" by simp
  then obtain pc s where s: "stop_step env (Caller n) (caller_pc \<sigma> n) (shared \<sigma>) = Some (pc, s)"
    "\<sigma>' = \<sigma>\<lparr>shared := s, caller_pc := (caller_pc \<sigma>)(n := pc)\<rparr>"
    by (rule step_Caller)
  from stop_step_lock [OF s(1)] assms(2) show ?thesis
    unfolding lock_inv_alt s(2)
    by (auto simp: release_lock split: option.splits thread.splits if_splits)
       (metis thread.exhaust)+
qed

subsection \<open>The handle and its owners along a step\<close>

lemma owners_reset_endpoint:
  "owners (reset_endpoint s) b =
     (if m_endpoint s = Some b then owners s b - {Member} else owners s b)"
  by (simp add: reset_endpoint_def owners_drop_owner)

lemma run_step_handle:
  assumes "run_step env pc s = Some (pc', s')"
    and "published_pc pc \<longrightarrow> (\<exists>a. m_endpoint s = Some a \<and> Member \<in> owners s a)"
    and "unpublished_pc pc \<longrightarrow> m_endpoint s = None"
  shows "(published_pc pc' \<longrightarrow> (\<exists>a. m_endpoint s' = Some a \<and> Member \<in> owners s' a)) \<and>
         (unpublished_pc pc' \<longrightarrow> m_endpoint s' = None)"
  using assms
  by (cases pc)
     (auto simp: acquire_Some split: option.splits sum.splits exn.splits)

lemma stop_step_handle:
  assumes "stop_step env t pc s = Some (pc', s')"
  shows "m_endpoint s' = m_endpoint s" and "Member \<in> owners s a \<Longrightarrow> Member \<in> owners s' a"
  using assms
  by (cases pc; auto simp: acquire_Some owners_add_owner owners_drop_owner
        split: option.splits sum.splits call_end.splits)+

lemma handle_inv_step:
  assumes "step env t \<sigma> = Some \<sigma>'" and "handle_inv \<sigma>"
  shows "handle_inv \<sigma>'"
proof (cases t)
  case Exec
  with assms(1) have "step env Exec \<sigma> = Some \<sigma>'" by simp
  then obtain pc s where s: "run_step env (exec_pc \<sigma>) (shared \<sigma>) = Some (pc, s)"
    "\<sigma>' = \<sigma>\<lparr>shared := s, exec_pc := pc\<rparr>"
    by (rule step_Exec)
  from run_step_handle [OF s(1)] assms(2) show ?thesis
    by (simp add: handle_inv_def s(2))
next
  case (Caller n)
  with assms(1) have "step env (Caller n) \<sigma> = Some \<sigma>'" by simp
  then obtain pc s where s: "stop_step env (Caller n) (caller_pc \<sigma> n) (shared \<sigma>) = Some (pc, s)"
    "\<sigma>' = \<sigma>\<lparr>shared := s, caller_pc := (caller_pc \<sigma>)(n := pc)\<rparr>"
    by (rule step_Caller)
  from stop_step_handle [OF s(1)] assms(2) show ?thesis
    by (auto simp: handle_inv_def s(2))
qed

lemma run_step_tokens:
  assumes "run_step env pc s = Some (pc', s')"
  shows "pc \<noteq> R_publish \<Longrightarrow> Local t \<in> owners s a \<Longrightarrow> Local t \<in> owners s' a"
    and "early_pc pc' \<Longrightarrow> early_pc pc"
  using assms
  by (cases pc; auto simp: acquire_Some owners_reset_endpoint
        split: option.splits sum.splits exn.splits)+

lemma stop_step_tokens:
  assumes "stop_step env t pc s = Some (pc', s')"
  shows "w \<noteq> Local t \<Longrightarrow> w \<in> owners s a \<Longrightarrow> w \<in> owners s' a"
    and "local_of pc = Some a \<Longrightarrow> Local t \<in> owners s a \<Longrightarrow>
         local_of pc' = Some a \<and> Local t \<in> owners s' a \<or> local_of pc' = None"
    and "local_of pc = None \<Longrightarrow> local_of pc' = Some a \<Longrightarrow>
         m_endpoint s = Some a \<and> Local t \<in> owners s' a"
  using assms
  by (cases pc; auto simp: acquire_Some owners_add_owner owners_drop_owner
        split: option.splits sum.splits call_end.splits)+

lemma locals_inv_step:
  assumes "step env t \<sigma> = Some \<sigma>'" and "locals_inv \<sigma>" and "handle_inv \<sigma>"
  shows "locals_inv \<sigma>'"
proof (cases t)
  case Exec
  with assms(1) have "step env Exec \<sigma> = Some \<sigma>'" by simp
  then obtain pc s where s: "run_step env (exec_pc \<sigma>) (shared \<sigma>) = Some (pc, s)"
    "\<sigma>' = \<sigma>\<lparr>shared := s, exec_pc := pc\<rparr>"
    by (rule step_Exec)
  show ?thesis
  proof (cases "exec_pc \<sigma> = R_publish")
    case True
    then have "\<forall>n. local_of (caller_pc \<sigma> n) = None"
      using assms(2) by (simp add: locals_inv_def)
    then show ?thesis
      by (simp add: locals_inv_def s(2))
  next
    case False
    from run_step_tokens [OF s(1)] False assms(2) show ?thesis
      by (auto simp: locals_inv_def s(2))
  qed
next
  case (Caller n)
  with assms(1) have "step env (Caller n) \<sigma> = Some \<sigma>'" by simp
  then obtain pc s where s: "stop_step env (Caller n) (caller_pc \<sigma> n) (shared \<sigma>) = Some (pc, s)"
    "\<sigma>' = \<sigma>\<lparr>shared := s, caller_pc := (caller_pc \<sigma>)(n := pc)\<rparr>"
    by (rule step_Caller)
  note tok = stop_step_tokens [OF s(1)]
  have own: "Local (Caller m) \<in> owners s a" if "local_of (caller_pc \<sigma>' m) = Some a" for m a
  proof (cases "m = n")
    case False
    then have "local_of (caller_pc \<sigma> m) = Some a" using that by (simp add: s(2))
    then have "Local (Caller m) \<in> owners (shared \<sigma>) a"
      using assms(2) by (simp add: locals_inv_def)
    then show ?thesis using tok(1) [of "Local (Caller m)" a] False by simp
  next
    case True
    then have l': "local_of pc = Some a" using that by (simp add: s(2))
    show ?thesis
    proof (cases "local_of (caller_pc \<sigma> n)")
      case None
      from tok(3) [OF None l'] True show ?thesis by simp
    next
      case (Some b)
      then have "Local (Caller n) \<in> owners (shared \<sigma>) b"
        using assms(2) by (simp add: locals_inv_def)
      from tok(2) [OF Some this] l' True show ?thesis by auto
    qed
  qed
  have early: "local_of (caller_pc \<sigma>' m) = None" if "early_pc (exec_pc \<sigma>)" for m
  proof (cases "m = n")
    case False
    then show ?thesis using assms(2) that by (simp add: locals_inv_def s(2))
  next
    case True
    have none: "local_of (caller_pc \<sigma> n) = None"
      using assms(2) that by (simp add: locals_inv_def)
    have "unpublished_pc (exec_pc \<sigma>)" using that by (cases "exec_pc \<sigma>") simp_all
    then have null: "m_endpoint (shared \<sigma>) = None"
      using assms(3) by (simp add: handle_inv_def)
    show ?thesis
    proof (cases "local_of pc")
      case None
      then show ?thesis using True by (simp add: s(2))
    next
      case (Some a)
      from tok(3) [OF none Some] null show ?thesis by simp
    qed
  qed
  show ?thesis
    unfolding locals_inv_def using own early by (simp add: s(2))
qed

lemma nofault_inv_step:
  assumes "step env t \<sigma> = Some \<sigma>'" and "nofault_inv env \<sigma>" and "handle_inv \<sigma>"
    and "locals_inv \<sigma>"
  shows "nofault_inv env \<sigma>'"
proof (cases t)
  case Exec
  with assms(1) have "step env Exec \<sigma> = Some \<sigma>'" by simp
  then obtain pc s where s: "run_step env (exec_pc \<sigma>) (shared \<sigma>) = Some (pc, s)"
    "\<sigma>' = \<sigma>\<lparr>shared := s, exec_pc := pc\<rparr>"
    by (rule step_Exec)
  have d: "\<exists>a. deref (m_endpoint (shared \<sigma>)) (shared \<sigma>) = Inr a" if "published_pc (exec_pc \<sigma>)"
    using assms(3) that by (auto simp: handle_inv_def deref_def)
  have "\<exists>e. f = Thrown e" if "pc = R_aborted f" for f
    using s(1) that d
    by (cases "exec_pc \<sigma>") (auto split: option.splits sum.splits exn.splits)
  then show ?thesis
    using assms(2) by (simp add: nofault_inv_def s(2))
next
  case (Caller n)
  with assms(1) have "step env (Caller n) \<sigma> = Some \<sigma>'" by simp
  then obtain pc s where s: "stop_step env (Caller n) (caller_pc \<sigma> n) (shared \<sigma>) = Some (pc, s)"
    "\<sigma>' = \<sigma>\<lparr>shared := s, caller_pc := (caller_pc \<sigma>)(n := pc)\<rparr>"
    by (rule step_Caller)
  have d: "deref (Some a) (shared \<sigma>) = Inr a" if "local_of (caller_pc \<sigma> n) = Some a" for a
    using assms(4) that by (auto simp: locals_inv_def deref_def)
  have "\<exists>e. f = Thrown e \<and> stop_outcome env (Caller n) = Throws e" if "pc = S_aborted f" for f
    using s(1) d that
    by (cases "caller_pc \<sigma> n") (auto split: option.splits sum.splits call_end.splits)
  then show ?thesis
    using assms(2) by (simp add: nofault_inv_def s(2))
qed

subsection \<open>Lock scopes on the trace of the two threads\<close>

lemma depth_append: "depth h (xs @ ys) = depth (depth h xs) ys"
proof (induction xs arbitrary: h)
  case Nil
  then show ?case by simp
next
  case (Cons e xs)
  then show ?case by (cases e) (simp_all add: fun_upd_def)
qed

lemma holding_append: "holding h (xs @ ys) = holding h xs @ holding (depth h xs) ys"
proof (induction xs arbitrary: h)
  case Nil
  then show ?case by simp
next
  case (Cons e xs)
  then show ?case by (cases e) (simp_all add: fun_upd_def)
qed

text \<open>What a step appends to the trace: it enters a scope, or leaves one, or stays inside
  one and writes \<open>m_endpoint\<close> or does nothing observable, or stays outside of all.\<close>

lemma run_step_trace:
  assumes "run_step env pc s = Some (pc', s')"
  shows "(\<not> in_scope_run pc \<and> in_scope_run pc' \<and> trace s' = trace s @ [Lock Exec]) \<or>
         (in_scope_run pc \<and> \<not> in_scope_run pc' \<and> trace s' = trace s @ [Unlock Exec]) \<or>
         (in_scope_run pc \<and> in_scope_run pc' \<and>
            (trace s' = trace s \<or> (\<exists>p. trace s' = trace s @ [HandleWrite Exec p]))) \<or>
         (\<not> in_scope_run pc \<and> \<not> in_scope_run pc' \<and>
            (\<exists>evs. trace s' = trace s @ evs \<and>
               (\<forall>e\<in>set evs. actor e = Exec \<and> \<not> is_write e \<and> \<not> is_stop_call e \<and>
                   (\<forall>t. e \<noteq> Lock t \<and> e \<noteq> Unlock t))))"
  using assms
  by (cases pc)
     (auto simp: acquire_Some warning_event_def split: option.splits sum.splits exn.splits)

lemma stop_step_trace:
  assumes "stop_step env t pc s = Some (pc', s')"
  shows "(\<not> in_scope_stop pc \<and> in_scope_stop pc' \<and> trace s' = trace s @ [Lock t]) \<or>
         (in_scope_stop pc \<and> \<not> in_scope_stop pc' \<and> trace s' = trace s @ [Unlock t]) \<or>
         (in_scope_stop pc \<and> in_scope_stop pc' \<and> trace s' = trace s @ [HandleRead t]) \<or>
         (\<not> in_scope_stop pc \<and> \<not> in_scope_stop pc' \<and>
            (\<exists>evs. trace s' = trace s @ evs \<and>
               (\<forall>e\<in>set evs. actor e = t \<and> \<not> is_access e \<and>
                   (\<forall>t. e \<noteq> Lock t \<and> e \<noteq> Unlock t))))"
  using assms
  by (cases pc) (auto simp: acquire_Some split: option.splits sum.splits call_end.splits)

lemma depth_plain:
  assumes "\<forall>e\<in>set evs. \<forall>t. e \<noteq> Lock t \<and> e \<noteq> Unlock t"
  shows "depth h evs = h"
  using assms
proof (induction evs)
  case Nil
  then show ?case by simp
next
  case (Cons e evs)
  then show ?case by (cases e) auto
qed

lemma holding_plain':
  assumes "\<forall>e\<in>set evs. \<forall>t. e \<noteq> Lock t \<and> e \<noteq> Unlock t"
  shows "holding h evs = map (\<lambda>e. (e, 0 < h (actor e))) evs"
proof -
  have "\<forall>t. Lock t \<notin> set evs \<and> Unlock t \<notin> set evs" using assms by blast
  from holding_plain [OF this, of h "[]"] show ?thesis by simp
qed

lemma depth_inv_enter:
  assumes "depth_inv \<sigma>" and "trace (shared \<sigma>') = trace (shared \<sigma>) @ [Lock u]"
    and "\<not> holder \<sigma> u" "holder \<sigma>' u" and "\<And>t. t \<noteq> u \<Longrightarrow> holder \<sigma>' t = holder \<sigma> t"
  shows "depth_inv \<sigma>'"
  unfolding depth_inv_def
proof
  fix t
  have d: "depth (\<lambda>t. 0) (trace (shared \<sigma>)) t' = (if holder \<sigma> t' then 1 else 0)" for t'
    using assms(1) by (simp add: depth_inv_def)
  show "depth (\<lambda>t. 0) (trace (shared \<sigma>')) t = (if holder \<sigma>' t then 1 else 0)"
    using assms(3,4) assms(5) [of t] d [of t] d [of u]
    by (cases "t = u") (simp_all add: assms(2) depth_append)
qed

lemma depth_inv_leave:
  assumes "depth_inv \<sigma>" and "trace (shared \<sigma>') = trace (shared \<sigma>) @ [Unlock u]"
    and "holder \<sigma> u" "\<not> holder \<sigma>' u" and "\<And>t. t \<noteq> u \<Longrightarrow> holder \<sigma>' t = holder \<sigma> t"
  shows "depth_inv \<sigma>'"
  unfolding depth_inv_def
proof
  fix t
  have d: "depth (\<lambda>t. 0) (trace (shared \<sigma>)) t' = (if holder \<sigma> t' then 1 else 0)" for t'
    using assms(1) by (simp add: depth_inv_def)
  show "depth (\<lambda>t. 0) (trace (shared \<sigma>')) t = (if holder \<sigma>' t then 1 else 0)"
    using assms(3,4) assms(5) [of t] d [of t] d [of u]
    by (cases "t = u") (simp_all add: assms(2) depth_append)
qed

lemma depth_inv_stay:
  assumes "depth_inv \<sigma>" and "trace (shared \<sigma>') = trace (shared \<sigma>) @ evs"
    and "\<forall>e\<in>set evs. \<forall>t. e \<noteq> Lock t \<and> e \<noteq> Unlock t"
    and "\<And>t. holder \<sigma>' t = holder \<sigma> t"
  shows "depth_inv \<sigma>'"
  using assms(1) unfolding depth_inv_def
  by (simp add: assms(2) depth_append depth_plain [OF assms(3)] assms(4))

lemma holder_Exec_step:
  "holder (\<sigma>\<lparr>shared := s, exec_pc := pc\<rparr>) t =
     (if t = Exec then in_scope_run pc else holder \<sigma> t)"
  by (cases t) simp_all

lemma holder_Caller_step:
  "holder (\<sigma>\<lparr>shared := s, caller_pc := (caller_pc \<sigma>)(n := pc)\<rparr>) t =
     (if t = Caller n then in_scope_stop pc else holder \<sigma> t)"
  by (cases t) simp_all

lemma depth_inv_step:
  assumes "step env t \<sigma> = Some \<sigma>'" and "depth_inv \<sigma>"
  shows "depth_inv \<sigma>'"
proof (cases t)
  case Exec
  with assms(1) have "step env Exec \<sigma> = Some \<sigma>'" by simp
  then obtain pc s where s: "run_step env (exec_pc \<sigma>) (shared \<sigma>) = Some (pc, s)"
    "\<sigma>' = \<sigma>\<lparr>shared := s, exec_pc := pc\<rparr>"
    by (rule step_Exec)
  have tr: "trace (shared \<sigma>') = trace s" by (simp add: s(2))
  from run_step_trace [OF s(1)] show ?thesis
  proof (elim disjE conjE exE)
    assume "\<not> in_scope_run (exec_pc \<sigma>)" "in_scope_run pc"
      "trace s = trace (shared \<sigma>) @ [Lock Exec]"
    then show ?thesis
      by (intro depth_inv_enter [OF assms(2), of \<sigma>' Exec])
         (simp_all add: s(2) holder_Exec_step)
  next
    assume "in_scope_run (exec_pc \<sigma>)" "\<not> in_scope_run pc"
      "trace s = trace (shared \<sigma>) @ [Unlock Exec]"
    then show ?thesis
      by (intro depth_inv_leave [OF assms(2), of \<sigma>' Exec])
         (simp_all add: s(2) holder_Exec_step)
  next
    assume "in_scope_run (exec_pc \<sigma>)" "in_scope_run pc" "trace s = trace (shared \<sigma>)"
    then show ?thesis
      by (intro depth_inv_stay [OF assms(2), of \<sigma>' "[]"])
         (simp_all add: s(2) holder_Exec_step)
  next
    fix p
    assume "in_scope_run (exec_pc \<sigma>)" "in_scope_run pc"
      "trace s = trace (shared \<sigma>) @ [HandleWrite Exec p]"
    then show ?thesis
      by (intro depth_inv_stay [OF assms(2), of \<sigma>' "[HandleWrite Exec p]"])
         (simp_all add: s(2) holder_Exec_step)
  next
    fix evs
    assume a: "\<not> in_scope_run (exec_pc \<sigma>)" "\<not> in_scope_run pc"
      "trace s = trace (shared \<sigma>) @ evs"
      "\<forall>e\<in>set evs. actor e = Exec \<and> \<not> is_write e \<and> \<not> is_stop_call e \<and>
                   (\<forall>t. e \<noteq> Lock t \<and> e \<noteq> Unlock t)"
    have p: "\<forall>e\<in>set evs. \<forall>t. e \<noteq> Lock t \<and> e \<noteq> Unlock t" using a(4) by blast
    show ?thesis
      using a(1-3)
      by (intro depth_inv_stay [OF assms(2) _ p]) (simp_all add: s(2) holder_Exec_step)
  qed
next
  case (Caller n)
  with assms(1) have "step env (Caller n) \<sigma> = Some \<sigma>'" by simp
  then obtain pc s where s: "stop_step env (Caller n) (caller_pc \<sigma> n) (shared \<sigma>) = Some (pc, s)"
    "\<sigma>' = \<sigma>\<lparr>shared := s, caller_pc := (caller_pc \<sigma>)(n := pc)\<rparr>"
    by (rule step_Caller)
  from stop_step_trace [OF s(1)] show ?thesis
  proof (elim disjE conjE exE)
    assume "\<not> in_scope_stop (caller_pc \<sigma> n)" "in_scope_stop pc"
      "trace s = trace (shared \<sigma>) @ [Lock (Caller n)]"
    then show ?thesis
      by (intro depth_inv_enter [OF assms(2), of \<sigma>' "Caller n"])
         (simp_all add: s(2) holder_Caller_step)
  next
    assume "in_scope_stop (caller_pc \<sigma> n)" "\<not> in_scope_stop pc"
      "trace s = trace (shared \<sigma>) @ [Unlock (Caller n)]"
    then show ?thesis
      by (intro depth_inv_leave [OF assms(2), of \<sigma>' "Caller n"])
         (simp_all add: s(2) holder_Caller_step)
  next
    assume "in_scope_stop (caller_pc \<sigma> n)" "in_scope_stop pc"
      "trace s = trace (shared \<sigma>) @ [HandleRead (Caller n)]"
    then show ?thesis
      by (intro depth_inv_stay [OF assms(2), of \<sigma>' "[HandleRead (Caller n)]"])
         (simp_all add: s(2) holder_Caller_step)
  next
    fix evs
    assume a: "\<not> in_scope_stop (caller_pc \<sigma> n)" "\<not> in_scope_stop pc"
      "trace s = trace (shared \<sigma>) @ evs"
      "\<forall>e\<in>set evs. actor e = Caller n \<and> \<not> is_access e \<and>
                   (\<forall>t. e \<noteq> Lock t \<and> e \<noteq> Unlock t)"
    have p: "\<forall>e\<in>set evs. \<forall>t. e \<noteq> Lock t \<and> e \<noteq> Unlock t" using a(4) by blast
    show ?thesis
      using a(1-3)
      by (intro depth_inv_stay [OF assms(2) _ p]) (simp_all add: s(2) holder_Caller_step)
  qed
qed

lemma calls_inv_step:
  assumes "step env t \<sigma> = Some \<sigma>'" and "calls_inv \<sigma>" and "depth_inv \<sigma>"
  shows "calls_inv \<sigma>'"
proof -
  let ?h = "depth (\<lambda>t. 0) (trace (shared \<sigma>))"
  have h: "0 < ?h t' \<longleftrightarrow> holder \<sigma> t'" for t'
    using assms(3) by (simp add: depth_inv_def)
  have grow: "calls_inv \<sigma>'"
    if "trace (shared \<sigma>') = trace (shared \<sigma>) @ evs"
      and "\<forall>(e, held) \<in> set (holding ?h evs).
             (is_stop_call e \<longrightarrow> \<not> held) \<and> (is_access e \<longrightarrow> (held \<longleftrightarrow> e \<noteq> HandleRead Exec))"
    for evs
    using assms(2) that by (auto simp: calls_inv_def holding_append)
  show ?thesis
  proof (cases t)
    case Exec
    with assms(1) have "step env Exec \<sigma> = Some \<sigma>'" by simp
    then obtain pc s where s: "run_step env (exec_pc \<sigma>) (shared \<sigma>) = Some (pc, s)"
      "\<sigma>' = \<sigma>\<lparr>shared := s, exec_pc := pc\<rparr>"
      by (rule step_Exec)
    have hE: "0 < ?h Exec \<longleftrightarrow> in_scope_run (exec_pc \<sigma>)" using h [of Exec] by simp
    from run_step_trace [OF s(1)] show ?thesis
    proof (elim disjE conjE exE)
      fix evs
      assume a: "\<not> in_scope_run (exec_pc \<sigma>)" "trace s = trace (shared \<sigma>) @ evs"
        "\<forall>e\<in>set evs. actor e = Exec \<and> \<not> is_write e \<and> \<not> is_stop_call e \<and>
                   (\<forall>t. e \<noteq> Lock t \<and> e \<noteq> Unlock t)"
      have p: "\<forall>e\<in>set evs. \<forall>t. e \<noteq> Lock t \<and> e \<noteq> Unlock t" using a(3) by blast
      have acc: "e = HandleRead Exec" if "e \<in> set evs" "is_access e" for e
        using a(3) that by (cases e) auto
      show ?thesis
        by (rule grow [of evs])
           (use a hE acc in \<open>auto simp: s(2) holding_plain' [OF p]\<close>)
    next
      assume "trace s = trace (shared \<sigma>) @ [Lock Exec]"
      then show ?thesis by (intro grow [of "[Lock Exec]"]) (simp_all add: s(2))
    next
      assume "trace s = trace (shared \<sigma>) @ [Unlock Exec]"
      then show ?thesis by (intro grow [of "[Unlock Exec]"]) (simp_all add: s(2))
    next
      assume "trace s = trace (shared \<sigma>)"
      then show ?thesis by (intro grow [of "[]"]) (simp_all add: s(2))
    next
      fix p
      assume "in_scope_run (exec_pc \<sigma>)" "trace s = trace (shared \<sigma>) @ [HandleWrite Exec p]"
      then show ?thesis
        using hE by (intro grow [of "[HandleWrite Exec p]"]) (simp_all add: s(2))
    qed
  next
    case (Caller n)
    with assms(1) have "step env (Caller n) \<sigma> = Some \<sigma>'" by simp
    then obtain pc s where s: "stop_step env (Caller n) (caller_pc \<sigma> n) (shared \<sigma>) = Some (pc, s)"
      "\<sigma>' = \<sigma>\<lparr>shared := s, caller_pc := (caller_pc \<sigma>)(n := pc)\<rparr>"
      by (rule step_Caller)
    have hC: "0 < ?h (Caller n) \<longleftrightarrow> in_scope_stop (caller_pc \<sigma> n)"
      using h [of "Caller n"] by simp
    from stop_step_trace [OF s(1)] show ?thesis
    proof (elim disjE conjE exE)
      fix evs
      assume a: "\<not> in_scope_stop (caller_pc \<sigma> n)" "trace s = trace (shared \<sigma>) @ evs"
        "\<forall>e\<in>set evs. actor e = Caller n \<and> \<not> is_access e \<and>
                   (\<forall>t. e \<noteq> Lock t \<and> e \<noteq> Unlock t)"
      have p: "\<forall>e\<in>set evs. \<forall>t. e \<noteq> Lock t \<and> e \<noteq> Unlock t" using a(3) by blast
      show ?thesis
        by (rule grow [of evs])
           (use a hC in \<open>auto simp: s(2) holding_plain' [OF p]\<close>)
    next
      assume "trace s = trace (shared \<sigma>) @ [Lock (Caller n)]"
      then show ?thesis by (intro grow [of "[Lock (Caller n)]"]) (simp_all add: s(2))
    next
      assume "trace s = trace (shared \<sigma>) @ [Unlock (Caller n)]"
      then show ?thesis by (intro grow [of "[Unlock (Caller n)]"]) (simp_all add: s(2))
    next
      assume "in_scope_stop (caller_pc \<sigma> n)"
        "trace s = trace (shared \<sigma>) @ [HandleRead (Caller n)]"
      then show ?thesis
        using hC by (intro grow [of "[HandleRead (Caller n)]"]) (simp_all add: s(2))
    qed
  qed
qed

subsection \<open>The reset comes before \<open>stopped ()\<close>\<close>

lemma run_step_extends:
  assumes "run_step env pc s = Some (pc', s')"
  shows "\<exists>evs. trace s' = trace s @ evs \<and> (Stopped \<in> set evs \<longleftrightarrow> pc = R_stopped) \<and>
           (pc = R_reset \<longrightarrow> HandleWrite Exec None \<in> set evs) \<and>
           (after_reset pc' \<longrightarrow> pc = R_reset \<or> after_reset pc)"
  using assms
  by (cases pc)
     (auto simp: acquire_Some warning_event_def split: option.splits sum.splits exn.splits)

lemma stop_step_extends:
  assumes "stop_step env t pc s = Some (pc', s')"
  shows "\<exists>evs. trace s' = trace s @ evs \<and> Stopped \<notin> set evs"
  using assms
  by (cases pc) (auto simp: acquire_Some split: option.splits sum.splits call_end.splits)

lemma order_grow:
  assumes "Stopped \<in> set tr \<Longrightarrow>
             HandleWrite Exec None \<in> set (takeWhile (\<lambda>e. e \<noteq> Stopped) tr)"
    and "Stopped \<in> set evs \<Longrightarrow> HandleWrite Exec None \<in> set tr"
    and "Stopped \<in> set (tr @ evs)"
  shows "HandleWrite Exec None \<in> set (takeWhile (\<lambda>e. e \<noteq> Stopped) (tr @ evs))"
proof (cases "Stopped \<in> set tr")
  case True
  then have "takeWhile (\<lambda>e. e \<noteq> Stopped) (tr @ evs) = takeWhile (\<lambda>e. e \<noteq> Stopped) tr"
    by (intro takeWhile_append1) simp_all
  with assms(1) [OF True] show ?thesis by simp
next
  case False
  then have in_evs: "Stopped \<in> set evs" using assms(3) by simp
  have "takeWhile (\<lambda>e. e \<noteq> Stopped) (tr @ evs) = tr @ takeWhile (\<lambda>e. e \<noteq> Stopped) evs"
    using False by (intro takeWhile_append2) auto
  with assms(2) [OF in_evs] show ?thesis by simp
qed

lemma order_inv_step:
  assumes "step env t \<sigma> = Some \<sigma>'" and "order_inv \<sigma>"
  shows "order_inv \<sigma>'"
proof (cases t)
  case Exec
  with assms(1) have "step env Exec \<sigma> = Some \<sigma>'" by simp
  then obtain pc s where s: "run_step env (exec_pc \<sigma>) (shared \<sigma>) = Some (pc, s)"
    "\<sigma>' = \<sigma>\<lparr>shared := s, exec_pc := pc\<rparr>"
    by (rule step_Exec)
  from run_step_extends [OF s(1)] obtain evs where evs:
    "trace s = trace (shared \<sigma>) @ evs" "Stopped \<in> set evs \<longleftrightarrow> exec_pc \<sigma> = R_stopped"
    "exec_pc \<sigma> = R_reset \<longrightarrow> HandleWrite Exec None \<in> set evs"
    "after_reset pc \<longrightarrow> exec_pc \<sigma> = R_reset \<or> after_reset (exec_pc \<sigma>)"
    by blast
  have a: "HandleWrite Exec None \<in> set (trace s)" if "after_reset pc"
    using that evs(1,3,4) assms(2) by (auto simp: order_inv_def)
  have b: "HandleWrite Exec None \<in> set (takeWhile (\<lambda>e. e \<noteq> Stopped) (trace s))"
    if "Stopped \<in> set (trace s)"
    unfolding evs(1)
  proof (rule order_grow)
    show "HandleWrite Exec None \<in> set (takeWhile (\<lambda>e. e \<noteq> Stopped) (trace (shared \<sigma>)))"
      if "Stopped \<in> set (trace (shared \<sigma>))"
      using that assms(2) by (simp add: order_inv_def)
    show "HandleWrite Exec None \<in> set (trace (shared \<sigma>))" if "Stopped \<in> set evs"
      using that evs(2) assms(2) by (simp add: order_inv_def)
    show "Stopped \<in> set (trace (shared \<sigma>) @ evs)"
      using \<open>Stopped \<in> set (trace s)\<close> evs(1) by simp
  qed
  from a b show ?thesis by (simp add: order_inv_def s(2))
next
  case (Caller n)
  with assms(1) have "step env (Caller n) \<sigma> = Some \<sigma>'" by simp
  then obtain pc s where s: "stop_step env (Caller n) (caller_pc \<sigma> n) (shared \<sigma>) = Some (pc, s)"
    "\<sigma>' = \<sigma>\<lparr>shared := s, caller_pc := (caller_pc \<sigma>)(n := pc)\<rparr>"
    by (rule step_Caller)
  from stop_step_extends [OF s(1)] obtain evs where evs:
    "trace s = trace (shared \<sigma>) @ evs" "Stopped \<notin> set evs"
    by blast
  have a: "HandleWrite Exec None \<in> set (trace s)" if "after_reset (exec_pc \<sigma>)"
    using that evs(1) assms(2) by (auto simp: order_inv_def)
  have b: "HandleWrite Exec None \<in> set (takeWhile (\<lambda>e. e \<noteq> Stopped) (trace s))"
    if "Stopped \<in> set (trace s)"
    unfolding evs(1)
  proof (rule order_grow)
    show "HandleWrite Exec None \<in> set (takeWhile (\<lambda>e. e \<noteq> Stopped) (trace (shared \<sigma>)))"
      if "Stopped \<in> set (trace (shared \<sigma>))"
      using that assms(2) by (simp add: order_inv_def)
    show "HandleWrite Exec None \<in> set (trace (shared \<sigma>))" if "Stopped \<in> set evs"
      using that evs(2) by simp
    show "Stopped \<in> set (trace (shared \<sigma>) @ evs)"
      using \<open>Stopped \<in> set (trace s)\<close> evs(1) by simp
  qed
  from a b show ?thesis by (simp add: order_inv_def s(2))
qed

subsection \<open>Every invocation that is past the signal has signalled\<close>

lemma run_step_flag:
  assumes "run_step env pc s = Some (pc', s')"
  shows "threadShouldExit s' = threadShouldExit s" and "e \<in> set (trace s) \<Longrightarrow> e \<in> set (trace s')"
  using assms
  by (cases pc; auto simp: acquire_Some split: option.splits sum.splits exn.splits)+

lemma stop_step_flag:
  assumes "stop_step env t pc s = Some (pc', s')"
  shows "threadShouldExit s \<Longrightarrow> threadShouldExit s'"
    and "e \<in> set (trace s) \<Longrightarrow> e \<in> set (trace s')"
    and "signalled pc' \<Longrightarrow>
         SignalThreadShouldExit t \<in> set (trace s') \<and> threadShouldExit s' \<or> signalled pc"
  using assms
  by (cases pc; auto simp: acquire_Some split: option.splits sum.splits call_end.splits)+

lemma signal_inv_step:
  assumes "step env t \<sigma> = Some \<sigma>'" and "signal_inv \<sigma>"
  shows "signal_inv \<sigma>'"
proof (cases t)
  case Exec
  with assms(1) have "step env Exec \<sigma> = Some \<sigma>'" by simp
  then obtain pc s where s: "run_step env (exec_pc \<sigma>) (shared \<sigma>) = Some (pc, s)"
    "\<sigma>' = \<sigma>\<lparr>shared := s, exec_pc := pc\<rparr>"
    by (rule step_Exec)
  from run_step_flag [OF s(1)] assms(2) show ?thesis
    by (simp add: signal_inv_def s(2))
next
  case (Caller n)
  with assms(1) have "step env (Caller n) \<sigma> = Some \<sigma>'" by simp
  then obtain pc s where s: "stop_step env (Caller n) (caller_pc \<sigma> n) (shared \<sigma>) = Some (pc, s)"
    "\<sigma>' = \<sigma>\<lparr>shared := s, caller_pc := (caller_pc \<sigma>)(n := pc)\<rparr>"
    by (rule step_Caller)
  note f = stop_step_flag [OF s(1)]
  have "SignalThreadShouldExit (Caller m) \<in> set (trace s) \<and> threadShouldExit s"
    if "signalled (caller_pc \<sigma>' m)" for m
  proof (cases "m = n")
    case False
    then have "signalled (caller_pc \<sigma> m)" using that by (simp add: s(2))
    with assms(2) f(1,2) show ?thesis by (simp add: signal_inv_def)
  next
    case True
    then have "signalled pc" using that by (simp add: s(2))
    from f(3) [OF this] show ?thesis
    proof
      assume "SignalThreadShouldExit (Caller n) \<in> set (trace s) \<and> threadShouldExit s"
      then show ?thesis using True by simp
    next
      assume "signalled (caller_pc \<sigma> n)"
      with assms(2) f(1,2) True show ?thesis by (simp add: signal_inv_def)
    qed
  qed
  then show ?thesis by (simp add: signal_inv_def s(2))
qed

subsection \<open>An invocation that is not past the signal has not signalled\<close>

lemma run_step_no_signal:
  assumes "run_step env pc s = Some (pc', s')"
    and "SignalThreadShouldExit t \<in> set (trace s')"
  shows "SignalThreadShouldExit t \<in> set (trace s)"
  using assms
  by (cases pc)
     (auto simp: acquire_Some warn_def split: option.splits sum.splits exn.splits)

lemma stop_step_no_signal:
  assumes "stop_step env t pc s = Some (pc', s')"
  shows "SignalThreadShouldExit t' \<in> set (trace s') \<Longrightarrow>
           SignalThreadShouldExit t' \<in> set (trace s) \<or> (t' = t \<and> signalled pc')"
    and "signalled pc \<Longrightarrow> signalled pc'"
  using assms
  by (cases pc; auto simp: acquire_Some split: option.splits sum.splits call_end.splits)+

lemma unsignalled_inv_step:
  assumes "step env t \<sigma> = Some \<sigma>'" and "unsignalled_inv \<sigma>"
  shows "unsignalled_inv \<sigma>'"
proof (cases t)
  case Exec
  with assms(1) have "step env Exec \<sigma> = Some \<sigma>'" by simp
  then obtain pc s where s: "run_step env (exec_pc \<sigma>) (shared \<sigma>) = Some (pc, s)"
    "\<sigma>' = \<sigma>\<lparr>shared := s, exec_pc := pc\<rparr>"
    by (rule step_Exec)
  from run_step_no_signal [OF s(1)] assms(2) show ?thesis
    by (auto simp: unsignalled_inv_def s(2))
next
  case (Caller n)
  with assms(1) have "step env (Caller n) \<sigma> = Some \<sigma>'" by simp
  then obtain pc s where s: "stop_step env (Caller n) (caller_pc \<sigma> n) (shared \<sigma>) = Some (pc, s)"
    "\<sigma>' = \<sigma>\<lparr>shared := s, caller_pc := (caller_pc \<sigma>)(n := pc)\<rparr>"
    by (rule step_Caller)
  note f = stop_step_no_signal [OF s(1)]
  have "signalled (caller_pc \<sigma>' m)" if "SignalThreadShouldExit (Caller m) \<in> set (trace s)" for m
  proof (cases "m = n")
    case False
    with f(1) [OF that] have "SignalThreadShouldExit (Caller m) \<in> set (trace (shared \<sigma>))"
      by simp
    with assms(2) False show ?thesis by (simp add: unsignalled_inv_def s(2))
  next
    case True
    from f(1) [OF that] show ?thesis
    proof
      assume "SignalThreadShouldExit (Caller m) \<in> set (trace (shared \<sigma>))"
      with assms(2) have "signalled (caller_pc \<sigma> n)"
        using True by (simp add: unsignalled_inv_def)
      from f(2) [OF this] show ?thesis using True by (simp add: s(2))
    next
      assume "Caller m = Caller n \<and> signalled pc"
      then show ?thesis using True by (simp add: s(2))
    qed
  qed
  then show ?thesis by (simp add: unsignalled_inv_def s(2))
qed

subsection \<open>Every state the two threads reach\<close>

lemma system_inv_init: "system_inv env (init_system p)"
  by (simp add: system_inv_def lock_inv_alt handle_inv_def locals_inv_def nofault_inv_def
      stopped_inv_def depth_inv_def calls_inv_def order_inv_def signal_inv_def
      unsignalled_inv_def init_system_def init_world_def all_thread)

lemma system_inv_step:
  assumes "step env t \<sigma> = Some \<sigma>'" and "system_inv env \<sigma>"
  shows "system_inv env \<sigma>'"
  using assms(2) unfolding system_inv_def
  by (intro conjI lock_inv_step [OF assms(1)] handle_inv_step [OF assms(1)]
      locals_inv_step [OF assms(1)] nofault_inv_step [OF assms(1)]
      stopped_inv_step [OF assms(1)] depth_inv_step [OF assms(1)]
      calls_inv_step [OF assms(1)] order_inv_step [OF assms(1)]
      signal_inv_step [OF assms(1)] unsignalled_inv_step [OF assms(1)]) simp_all

lemma system_inv_exec:
  assumes "exec env sched \<sigma> = Some \<sigma>'" and "system_inv env \<sigma>"
  shows "system_inv env \<sigma>'"
  using assms
proof (induction sched arbitrary: \<sigma>)
  case Nil
  then show ?case by simp
next
  case (Cons t ts)
  from Cons.prems(1) obtain \<sigma>1 where s: "step env t \<sigma> = Some \<sigma>1" "exec env ts \<sigma>1 = Some \<sigma>'"
    by (auto split: option.splits)
  from Cons.IH [OF s(2) system_inv_step [OF s(1) Cons.prems(2)]] show ?case .
qed

lemma reachable_inv:
  assumes "exec env sched (init_system p) = Some \<sigma>"
  shows "system_inv env \<sigma>"
  using system_inv_exec [OF assms system_inv_init] .

lemma exec_append:
  "exec env (xs @ ys) \<sigma> = (case exec env xs \<sigma> of None \<Rightarrow> None | Some \<sigma>' \<Rightarrow> exec env ys \<sigma>')"
  by (induction xs arbitrary: \<sigma>) (simp_all split: option.splits)

subsection \<open>The configuration and the informational line\<close>

lemma run_step_config:
  assumes "run_step env pc s = Some (pc', s')"
  shows "port_cfg s' = port_cfg s"
    and "logged lsINFO (trace s') =
           logged lsINFO (trace s) @ (if pc = R_log then [startup_message (port_cfg s)] else [])"
    and "pc' \<noteq> R_log"
  using assms
  by (cases pc; auto simp: acquire_Some logged_append warn_def
        split: option.splits sum.splits exn.splits)+

lemma stop_step_config:
  assumes "stop_step env t pc s = Some (pc', s')"
  shows "port_cfg s' = port_cfg s" and "logged lsINFO (trace s') = logged lsINFO (trace s)"
  using assms
  by (cases pc; auto simp: acquire_Some logged_append
        split: option.splits sum.splits call_end.splits)+

lemma config_inv_step:
  assumes "step env t \<sigma> = Some \<sigma>'" and "config_inv p \<sigma>"
  shows "config_inv p \<sigma>'"
proof (cases t)
  case Exec
  with assms(1) have "step env Exec \<sigma> = Some \<sigma>'" by simp
  then obtain pc s where s: "run_step env (exec_pc \<sigma>) (shared \<sigma>) = Some (pc, s)"
    "\<sigma>' = \<sigma>\<lparr>shared := s, exec_pc := pc\<rparr>"
    by (rule step_Exec)
  from run_step_config [OF s(1)] assms(2) show ?thesis
    by (simp add: config_inv_def s(2))
next
  case (Caller n)
  with assms(1) have "step env (Caller n) \<sigma> = Some \<sigma>'" by simp
  then obtain pc s where s: "stop_step env (Caller n) (caller_pc \<sigma> n) (shared \<sigma>) = Some (pc, s)"
    "\<sigma>' = \<sigma>\<lparr>shared := s, caller_pc := (caller_pc \<sigma>)(n := pc)\<rparr>"
    by (rule step_Caller)
  from stop_step_config [OF s(1)] assms(2) show ?thesis
    by (simp add: config_inv_def s(2))
qed

lemma config_inv_exec:
  assumes "exec env sched \<sigma> = Some \<sigma>'" and "config_inv p \<sigma>"
  shows "config_inv p \<sigma>'"
  using assms
proof (induction sched arbitrary: \<sigma>)
  case Nil
  then show ?case by simp
next
  case (Cons t ts)
  from Cons.prems(1) obtain \<sigma>1 where s: "step env t \<sigma> = Some \<sigma>1" "exec env ts \<sigma>1 = Some \<sigma>'"
    by (auto split: option.splits)
  from Cons.IH [OF s(2) config_inv_step [OF s(1) Cons.prems(2)]] show ?case .
qed

lemma reachable_config:
  assumes "exec env sched (init_system p) = Some \<sigma>"
  shows "config_inv p \<sigma>"
  by (rule config_inv_exec [OF assms]) (simp add: config_inv_def init_system_def init_world_def)

lemma make_WSDoor_Some:
  assumes "make_WSDoor c p = Inr (Some d)"
  shows "d = init_world p"
  using assms
  by (auto simp: make_WSDoor_def make_unique_WSDoorImp_def split: option.splits sum.splits)

subsection \<open>Three concrete interleavings\<close>

lemma exec_second_stop_throws:
  "exec (env_stop second_stop_throws) sched_second_stop_live (init_system peer_ws) =
     Some \<lparr>shared =
        \<lparr>port_cfg = peer_ws, m_endpointLock = None, m_endpoint = Some 0,
         threadShouldExit = True, owners = (\<lambda>a. {})(0 := {Member}),
         trace = [WriteLog lsINFO (startup_message peer_ws), Lock Exec,
                  HandleWrite Exec (Some 0), Unlock Exec, HandleRead Exec,
                  Listen 0 ''127.0.0.1'' 6206,
                  Lock (Caller 0), HandleRead (Caller 0), Unlock (Caller 0),
                  EndpointStop (Caller 0) 0, SignalThreadShouldExit (Caller 0),
                  Lock (Caller 1), HandleRead (Caller 1), Unlock (Caller 1),
                  EndpointStop (Caller 1) 0]\<rparr>,
       exec_pc = R_serving 0,
       caller_pc = (\<lambda>n. S_lock)
         (0 := S_returned, 1 := S_aborted (Thrown (websocketpp_exception ''invalid state'')))\<rparr>"
  by (simp add: sched_second_stop_live_def init_system_def init_world_def env_stop_def
      second_stop_throws_def env_of_def outcomes_of_def
      acquire_def release_def assign_endpoint_def reset_endpoint_def add_owner_def
      drop_owner_def deref_def emit_def signalThreadShouldExit_def peer_ws_def
      fun_upd_idem insert_Diff_if)

lemma exec_two_stops:
  "exec (env_of None (Inr 0) []) sched_two_stops (init_system peer_ws) =
     Some \<lparr>shared =
        \<lparr>port_cfg = peer_ws, m_endpointLock = None, m_endpoint = None,
         threadShouldExit = True, owners = (\<lambda>a. {}),
         trace = [WriteLog lsINFO (startup_message peer_ws), Lock Exec,
                  HandleWrite Exec (Some 0), Unlock Exec, HandleRead Exec,
                  Listen 0 ''127.0.0.1'' 6206,
                  Lock (Caller 0), HandleRead (Caller 0), Unlock (Caller 0),
                  EndpointStop (Caller 0) 0, SignalThreadShouldExit (Caller 0),
                  Lock Exec, HandleWrite Exec None, Unlock Exec, Stopped,
                  Lock (Caller 1), HandleRead (Caller 1), Unlock (Caller 1),
                  SignalThreadShouldExit (Caller 1)]\<rparr>,
       exec_pc = R_returned,
       caller_pc = (\<lambda>n. S_lock)(0 := S_returned, 1 := S_returned)\<rparr>"
  by (simp add: sched_two_stops_def init_system_def init_world_def env_of_def outcomes_of_def
      acquire_def release_def assign_endpoint_def reset_endpoint_def add_owner_def
      drop_owner_def deref_def emit_def signalThreadShouldExit_def peer_ws_def
      fun_upd_idem)

lemma exec_reset_before_stop:
  "exec (env_of None (Inr 0) []) sched_reset_before_stop (init_system peer_ws) =
     Some \<lparr>shared =
        \<lparr>port_cfg = peer_ws, m_endpointLock = None, m_endpoint = None,
         threadShouldExit = False, owners = (\<lambda>a. {})(0 := {Local (Caller 0)}),
         trace = [WriteLog lsINFO (startup_message peer_ws), Lock Exec,
                  HandleWrite Exec (Some 0), Unlock Exec, HandleRead Exec,
                  Listen 0 ''127.0.0.1'' 6206,
                  Lock (Caller 0), HandleRead (Caller 0), Unlock (Caller 0),
                  Lock Exec, HandleWrite Exec None, Unlock Exec, Stopped]\<rparr>,
       exec_pc = R_returned,
       caller_pc = (\<lambda>n. S_lock)(0 := S_test (Some 0))\<rparr>"
  by (simp add: sched_reset_before_stop_def init_system_def init_world_def env_of_def
      outcomes_of_def acquire_def release_def assign_endpoint_def reset_endpoint_def
      add_owner_def drop_owner_def deref_def emit_def signalThreadShouldExit_def peer_ws_def
      fun_upd_idem insert_Diff_if)

subsection \<open>The functions as a whole and their statements agree\<close>

text \<open>
  A run of \<open>run()\<close>, or of \<open>onStop()\<close>, that ends is the sequence of the steps of its
  thread, taken with no step of another thread in between.
\<close>

lemma exec_replicate_add:
  "exec env (replicate (i + j) t) \<sigma> =
     (case exec env (replicate i t) \<sigma> of None \<Rightarrow> None | Some \<sigma>' \<Rightarrow> exec env (replicate j t) \<sigma>')"
  by (simp add: replicate_add exec_append)

lemma loop_solo:
  assumes "io_service_run_loop env k s = Some y"
  shows "\<exists>j. exec env (replicate j Exec) \<lparr>shared = s, exec_pc = R_io_run k, caller_pc = c\<rparr> =
           Some \<lparr>shared = snd y, exec_pc = pc_after (fst y) R_lock_reset, caller_pc = c\<rparr>"
  using assms
proof (induction rule: io_service_run_loop.raw_induct [rotated 1, consumes 1])
  case (1 f env k s y)
  show ?case
  proof (cases "deref (m_endpoint s) s")
    case (Inl fl)
    then have "y = (Inl fl, emit (HandleRead Exec) s)" using 1(2) by simp
    then have "exec env (replicate 1 Exec) \<lparr>shared = s, exec_pc = R_io_run k, caller_pc = c\<rparr> =
           Some \<lparr>shared = snd y, exec_pc = pc_after (fst y) R_lock_reset, caller_pc = c\<rparr>"
      using Inl by (simp add: pc_after_def)
    then show ?thesis by blast
  next
    case (Inr a)
    let ?s2 = "emit (IoRun a) (emit (HandleRead Exec) s)"
    have two: "exec env (replicate (2 + j) Exec) \<lparr>shared = s, exec_pc = R_io_run k, caller_pc = c\<rparr> =
        (case run_step env (R_serving k) ?s2 of None \<Rightarrow> None
         | Some (pc, s') \<Rightarrow>
             exec env (replicate j Exec) \<lparr>shared = s', exec_pc = pc, caller_pc = c\<rparr>)" for j
      using Inr by (simp add: numeral_2_eq_2 split: option.splits)
    show ?thesis
    proof (cases "serve_outcome env k")
      case None
      then have "y = (Inr (), ?s2)" using 1(2) Inr by simp
      then have "exec env (replicate (2 + 0) Exec) \<lparr>shared = s, exec_pc = R_io_run k, caller_pc = c\<rparr> =
           Some \<lparr>shared = snd y, exec_pc = pc_after (fst y) R_lock_reset, caller_pc = c\<rparr>"
        unfolding two using None by (simp add: pc_after_def)
      then show ?thesis by blast
    next
      case (Some e)
      show ?thesis
      proof (cases e)
        case (other_exception m)
        then have "y = (Inl (Thrown (other_exception m)), ?s2)" using 1(2) Inr Some by simp
        then have "exec env (replicate (2 + 0) Exec)
             \<lparr>shared = s, exec_pc = R_io_run k, caller_pc = c\<rparr> =
           Some \<lparr>shared = snd y, exec_pc = pc_after (fst y) R_lock_reset, caller_pc = c\<rparr>"
          unfolding two using Some other_exception by (simp add: pc_after_def)
        then show ?thesis by blast
      next
        case (websocketpp_exception m)
        let ?s3 = "warn (websocketpp_exception m) ?s2"
        have "f env (Suc k) ?s3 = Some y"
          using 1(2) Inr Some websocketpp_exception by simp
        from 1(1) [OF this] obtain j where
          "exec env (replicate j Exec) \<lparr>shared = ?s3, exec_pc = R_io_run (Suc k), caller_pc = c\<rparr> =
           Some \<lparr>shared = snd y, exec_pc = pc_after (fst y) R_lock_reset, caller_pc = c\<rparr>"
          by blast
        then have "exec env (replicate (2 + j) Exec)
             \<lparr>shared = s, exec_pc = R_io_run k, caller_pc = c\<rparr> =
           Some \<lparr>shared = snd y, exec_pc = pc_after (fst y) R_lock_reset, caller_pc = c\<rparr>"
          unfolding two using Some websocketpp_exception by simp
        then show ?thesis by blast
      qed
    qed
  qed
qed

lemma serve_solo:
  assumes "serve env s = Some y"
  shows "\<exists>j. exec env (replicate j Exec) \<lparr>shared = s, exec_pc = R_listen, caller_pc = c\<rparr> =
           Some \<lparr>shared = snd y, exec_pc = pc_after (fst y) R_lock_reset, caller_pc = c\<rparr>"
proof (cases "deref (m_endpoint s) s")
  case (Inl fl)
  then have "y = (Inl fl, emit (HandleRead Exec) s)" using assms by (simp add: serve_def)
  then have "exec env (replicate 1 Exec) \<lparr>shared = s, exec_pc = R_listen, caller_pc = c\<rparr> =
           Some \<lparr>shared = snd y, exec_pc = pc_after (fst y) R_lock_reset, caller_pc = c\<rparr>"
    using Inl by (simp add: pc_after_def)
  then show ?thesis by blast
next
  case (Inr a)
  let ?s2 = "emit (Listen a (ip (port_cfg s)) (port (port_cfg s))) (emit (HandleRead Exec) s)"
  have two: "exec env (replicate (2 + j) Exec) \<lparr>shared = s, exec_pc = R_listen, caller_pc = c\<rparr> =
        (case run_step env (R_serving 0) ?s2 of None \<Rightarrow> None
         | Some (pc, s') \<Rightarrow>
             exec env (replicate j Exec) \<lparr>shared = s', exec_pc = pc, caller_pc = c\<rparr>)" for j
    using Inr by (simp add: numeral_2_eq_2 split: option.splits)
  show ?thesis
  proof (cases "serve_outcome env 0")
    case None
    then have "y = (Inr (), ?s2)" using assms Inr by (simp add: serve_def)
    then have "exec env (replicate (2 + 0) Exec) \<lparr>shared = s, exec_pc = R_listen, caller_pc = c\<rparr> =
           Some \<lparr>shared = snd y, exec_pc = pc_after (fst y) R_lock_reset, caller_pc = c\<rparr>"
      unfolding two using None by (simp add: pc_after_def)
    then show ?thesis by blast
  next
    case (Some e)
    show ?thesis
    proof (cases e)
      case (other_exception m)
      then have "y = (Inl (Thrown (other_exception m)), ?s2)"
        using assms Inr Some by (simp add: serve_def)
      then have "exec env (replicate (2 + 0) Exec)
             \<lparr>shared = s, exec_pc = R_listen, caller_pc = c\<rparr> =
           Some \<lparr>shared = snd y, exec_pc = pc_after (fst y) R_lock_reset, caller_pc = c\<rparr>"
        unfolding two using Some other_exception by (simp add: pc_after_def)
      then show ?thesis by blast
    next
      case (websocketpp_exception m)
      let ?s3 = "warn (websocketpp_exception m) ?s2"
      have "io_service_run_loop env 1 ?s3 = Some y"
        using assms Inr Some websocketpp_exception by (simp add: serve_def)
      from loop_solo [OF this, of c] obtain j where
        "exec env (replicate j Exec) \<lparr>shared = ?s3, exec_pc = R_io_run 1, caller_pc = c\<rparr> =
           Some \<lparr>shared = snd y, exec_pc = pc_after (fst y) R_lock_reset, caller_pc = c\<rparr>"
        by blast
      then have "exec env (replicate (2 + j) Exec)
             \<lparr>shared = s, exec_pc = R_listen, caller_pc = c\<rparr> =
           Some \<lparr>shared = snd y, exec_pc = pc_after (fst y) R_lock_reset, caller_pc = c\<rparr>"
        unfolding two using Some websocketpp_exception by simp
      then show ?thesis by blast
    qed
  qed
qed

lemma teardown_solo:
  assumes "teardown s = Some (r, s')"
  shows "exec env (replicate 4 Exec) \<lparr>shared = s, exec_pc = R_lock_reset, caller_pc = c\<rparr> =
           Some \<lparr>shared = s', exec_pc = pc_after r R_returned, caller_pc = c\<rparr>"
  using assms
  by (auto simp: teardown_def pc_after_def numeral_eq_Suc split: option.splits)

lemma run_solo:
  assumes "run env s = Some (r, s')"
  shows "\<exists>j. exec env (replicate j Exec) \<lparr>shared = s, exec_pc = R_log, caller_pc = c\<rparr> =
           Some \<lparr>shared = s', exec_pc = pc_after r R_returned, caller_pc = c\<rparr>"
proof -
  let ?s1 = "emit (WriteLog lsINFO (startup_message (port_cfg s))) s"
  have rb: "run_body env ?s1 = Some (r, s')" using assms by (simp add: run_def)
  show ?thesis
  proof (cases "new_WSServerHandler env")
    case (Some e)
    then have "r = Inl (Thrown e)" "s' = ?s1" using rb by (simp_all add: run_body_def)
    then have "exec env (replicate 2 Exec) \<lparr>shared = s, exec_pc = R_log, caller_pc = c\<rparr> =
           Some \<lparr>shared = s', exec_pc = pc_after r R_returned, caller_pc = c\<rparr>"
      using Some by (simp add: pc_after_def numeral_eq_Suc)
    then show ?thesis by blast
  next
    case None
    then obtain s2 where s2: "acquire Exec ?s1 = Some s2"
      using rb by (auto simp: run_body_def split: option.splits)
    show ?thesis
    proof (cases "make_endpoint env")
      case (Inl e)
      then have "r = Inl (Thrown e)" "s' = release Exec s2"
        using rb None s2 by (simp_all add: run_body_def)
      then have "exec env (replicate 5 Exec) \<lparr>shared = s, exec_pc = R_log, caller_pc = c\<rparr> =
           Some \<lparr>shared = s', exec_pc = pc_after r R_returned, caller_pc = c\<rparr>"
        using None s2 Inl by (simp add: pc_after_def numeral_eq_Suc)
      then show ?thesis by blast
    next
      case (Inr a)
      let ?s3 = "release Exec (assign_endpoint a s2)"
      have five: "exec env (replicate 5 Exec) \<lparr>shared = s, exec_pc = R_log, caller_pc = c\<rparr> =
           Some \<lparr>shared = ?s3, exec_pc = R_listen, caller_pc = c\<rparr>"
        using None s2 Inr by (simp add: numeral_eq_Suc)
      from rb None s2 Inr obtain r4 s4 where sv: "serve env ?s3 = Some (r4, s4)"
        by (auto simp: run_body_def split: option.splits)
      from serve_solo [OF sv, of c] obtain j where j:
        "exec env (replicate j Exec) \<lparr>shared = ?s3, exec_pc = R_listen, caller_pc = c\<rparr> =
           Some \<lparr>shared = s4, exec_pc = pc_after r4 R_lock_reset, caller_pc = c\<rparr>"
        by auto
      show ?thesis
      proof (cases r4)
        case (Inl f)
        then have "r = Inl f" "s' = s4" using rb None s2 Inr sv by (simp_all add: run_body_def)
        then have "exec env (replicate (5 + j) Exec)
             \<lparr>shared = s, exec_pc = R_log, caller_pc = c\<rparr> =
           Some \<lparr>shared = s', exec_pc = pc_after r R_returned, caller_pc = c\<rparr>"
          unfolding exec_replicate_add five using j Inl by (simp add: pc_after_def)
        then show ?thesis by blast
      next
        case r4: (Inr u)
        then have "teardown s4 = Some (r, s')"
          using rb None s2 Inr sv by (simp add: run_body_def)
        from teardown_solo [OF this, of env c]
        have "exec env (replicate (5 + (j + 4)) Exec)
             \<lparr>shared = s, exec_pc = R_log, caller_pc = c\<rparr> =
           Some \<lparr>shared = s', exec_pc = pc_after r R_returned, caller_pc = c\<rparr>"
          unfolding exec_replicate_add five using j r4 by (simp add: pc_after_def)
        then show ?thesis by blast
      qed
    qed
  qed
qed

text \<open>Where an invocation of \<open>onStop()\<close> is after it has ended with \<open>r\<close>.\<close>

lemma onStop_solo:
  assumes "onStop env (Caller n) s = Some (r, s')" and "c n = S_lock"
  shows "\<exists>k. exec env (replicate k (Caller n)) \<lparr>shared = s, exec_pc = pc, caller_pc = c\<rparr> =
           Some \<lparr>shared = s', exec_pc = pc,
                 caller_pc = c(n := (case r of Inl f \<Rightarrow> S_aborted f | Inr u \<Rightarrow> S_returned))\<rparr>"
proof -
  from assms(1) obtain s1 where s1: "acquire (Caller n) s = Some s1"
    by (auto simp: onStop_def split: option.splits)
  let ?s2 = "release (Caller n)
     (add_owner (Local (Caller n)) (m_endpoint s1) (emit (HandleRead (Caller n)) s1))"
  have d: "deref (Some a) ?s2 = Inr a" if "m_endpoint s1 = Some a" for a
    using that by (simp add: deref_def owners_add_owner)
  show ?thesis
  proof (cases "m_endpoint s1")
    case None
    then have "s' = signalThreadShouldExit (Caller n) ?s2" "r = Inr ()"
      using assms(1) s1 by (auto simp: onStop_def Let_def)
    then have "exec env (replicate 6 (Caller n)) \<lparr>shared = s, exec_pc = pc, caller_pc = c\<rparr> =
           Some \<lparr>shared = s', exec_pc = pc,
                 caller_pc = c(n := (case r of Inl f \<Rightarrow> S_aborted f | Inr u \<Rightarrow> S_returned))\<rparr>"
      using s1 None assms(2) by (simp add: numeral_eq_Suc drop_owner_def)
    then show ?thesis by blast
  next
    case (Some a)
    show ?thesis
    proof (cases "stop_outcome env (Caller n)")
      case Returns
      then have "s' = drop_owner (Local (Caller n)) (Some a)
          (signalThreadShouldExit (Caller n) (emit (EndpointStop (Caller n) a) ?s2))" "r = Inr ()"
        using assms(1) s1 Some d [OF Some] by (auto simp: onStop_def Let_def)
      then have "exec env (replicate 7 (Caller n))
             \<lparr>shared = s, exec_pc = pc, caller_pc = c\<rparr> =
           Some \<lparr>shared = s', exec_pc = pc,
                 caller_pc = c(n := (case r of Inl f \<Rightarrow> S_aborted f | Inr u \<Rightarrow> S_returned))\<rparr>"
        using s1 Some Returns assms(2) d [OF Some] by (simp add: numeral_eq_Suc)
      then show ?thesis by blast
    next
      case (Throws e)
      then have "s' = drop_owner (Local (Caller n)) (Some a)
          (emit (EndpointStop (Caller n) a) ?s2)" "r = Inl (Thrown e)"
        using assms(1) s1 Some d [OF Some] by (auto simp: onStop_def Let_def)
      then have "exec env (replicate 5 (Caller n))
             \<lparr>shared = s, exec_pc = pc, caller_pc = c\<rparr> =
           Some \<lparr>shared = s', exec_pc = pc,
                 caller_pc = c(n := (case r of Inl f \<Rightarrow> S_aborted f | Inr u \<Rightarrow> S_returned))\<rparr>"
        using s1 Some Throws assms(2) d [OF Some] by (simp add: numeral_eq_Suc)
      then show ?thesis by blast
    next
      case NeverReturns
      then show ?thesis
        using assms(1) s1 Some d [OF Some] by (auto simp: onStop_def Let_def)
    qed
  qed
qed

text \<open>An invocation whose call of \<open>stop ()\<close> never returns has made that call, and stays
  inside it.\<close>

lemma onStop_blocked_solo:
  assumes "m_endpointLock s = None" and "m_endpoint s = Some a" and "c n = S_lock"
  shows "\<exists>s4. exec env (replicate 4 (Caller n)) \<lparr>shared = s, exec_pc = pc, caller_pc = c\<rparr> =
           Some \<lparr>shared = s4, exec_pc = pc, caller_pc = c(n := S_stopping (Some a))\<rparr> \<and>
           trace s4 = trace s @ [Lock (Caller n), HandleRead (Caller n), Unlock (Caller n),
                                 EndpointStop (Caller n) a] \<and>
           threadShouldExit s4 = threadShouldExit s \<and>
           (stop_outcome env (Caller n) = NeverReturns \<longrightarrow>
              step env (Caller n)
                \<lparr>shared = s4, exec_pc = pc, caller_pc = c(n := S_stopping (Some a))\<rparr> = None)"
proof -
  let ?s1 = "emit (Lock (Caller n)) (s\<lparr>m_endpointLock := Some (Caller n, 1)\<rparr>)"
  let ?s2 = "release (Caller n)
     (add_owner (Local (Caller n)) (m_endpoint ?s1) (emit (HandleRead (Caller n)) ?s1))"
  have m: "m_endpoint ?s1 = Some a" using assms(2) by simp
  have d: "deref (Some a) ?s2 = Inr a"
    using m by (simp add: deref_def owners_add_owner)
  have "exec env (replicate 4 (Caller n)) \<lparr>shared = s, exec_pc = pc, caller_pc = c\<rparr> =
           Some \<lparr>shared = emit (EndpointStop (Caller n) a) ?s2, exec_pc = pc,
                 caller_pc = c(n := S_stopping (Some a))\<rparr>"
    using assms(3) m d by (simp add: numeral_eq_Suc acquire_free [OF assms(1)])
  moreover have "trace (emit (EndpointStop (Caller n) a) ?s2) =
      trace s @ [Lock (Caller n), HandleRead (Caller n), Unlock (Caller n),
                 EndpointStop (Caller n) a]"
    by simp
  moreover have "threadShouldExit (emit (EndpointStop (Caller n) a) ?s2) = threadShouldExit s"
    by simp
  ultimately show ?thesis by simp
qed

section \<open>The claims\<close>

text \<open>
  Claim C1, as amended. Let the two constructions succeed and nobody hold the mutex. If
  the first \<open>N\<close> blocking calls throw \<open>websocketpp::exception\<close>s with the messages
  \<open>ms\<close> (\<open>N = length ms\<close>) and call \<open>N\<close> returns, then \<open>run()\<close> returns; its events
  are the startup, the call of \<open>listen\<close>, then for each failure one warning with the
  failure's message followed by one call of \<open>get_io_service().run()\<close>, then the
  teardown; so it logs \<open>N\<close> warnings and retries \<open>N\<close> times. If every blocking call
  throws a \<open>websocketpp::exception\<close>, \<open>run()\<close> never leaves the loop. If call \<open>N\<close>
  throws an exception of another type, that exception leaves \<open>run()\<close>: the events of the
  run end with the call that threw, with no warning for it, no further call, no write of
  null to \<open>m_endpoint\<close> and no \<open>stopped ()\<close>; \<open>m_endpoint\<close> still refers to the endpoint.
\<close>

theorem run_retries_websocketpp_exceptions:
  assumes "new_WSServerHandler env = None" and "make_endpoint env = Inr a"
    and "m_endpointLock s = None"
  shows "(\<forall>ms. (\<forall>i<length ms. serve_outcome env i = Some (websocketpp_exception (ms ! i))) \<and>
               serve_outcome env (length ms) = None \<longrightarrow>
            (\<exists>s'. run env s = Some (Inr (), s') \<and>
                  trace s' = trace s @ startup_events (port_cfg s) a @
                     serve_events (port_cfg s) a ms @ teardown_events \<and>
                  logged lsWARNING (drop (length (trace s)) (trace s')) =
                     map (\<lambda>m. ''websocketpp exception: '' @ m) ms \<and>
                  length (filter is_retry (drop (length (trace s)) (trace s'))) = length ms)) \<and>
         ((\<forall>k. \<exists>m. serve_outcome env k = Some (websocketpp_exception m)) \<longrightarrow> run env s = None) \<and>
         (\<forall>ms x. (\<forall>i<length ms. serve_outcome env i = Some (websocketpp_exception (ms ! i))) \<and>
               serve_outcome env (length ms) = Some (other_exception x) \<longrightarrow>
            (\<exists>s'. run env s = Some (Inl (Thrown (other_exception x)), s') \<and>
                  trace s' = trace s @ startup_events (port_cfg s) a @
                     serve_events (port_cfg s) a ms \<and>
                  logged lsWARNING (drop (length (trace s)) (trace s')) =
                     map (\<lambda>m. ''websocketpp exception: '' @ m) ms \<and>
                  length (filter is_retry (drop (length (trace s)) (trace s'))) = length ms \<and>
                  HandleWrite Exec None \<notin> set (drop (length (trace s)) (trace s')) \<and>
                  Stopped \<notin> set (drop (length (trace s)) (trace s')) \<and>
                  m_endpoint s' = Some a))"
proof (intro conjI allI impI)
  fix ms
  assume h: "(\<forall>i<length ms. serve_outcome env i = Some (websocketpp_exception (ms ! i))) \<and>
               serve_outcome env (length ms) = None"
  let ?s1 = "emit (WriteLog lsINFO (startup_message (port_cfg s))) s"
  have free: "m_endpointLock ?s1 = None" using assms(3) by simp
  from run_body_returns [OF assms(1,2) free conjunct1 [OF h] conjunct2 [OF h]]
  obtain s' where s': "run_body env ?s1 = Some (Inr (), s')"
    "trace s' = trace ?s1 @ [Lock Exec, HandleWrite Exec (Some a), Unlock Exec] @
              serve_events (port_cfg ?s1) a ms @ teardown_events"
    by blast
  have tr: "trace s' = trace s @ startup_events (port_cfg s) a @
                     serve_events (port_cfg s) a ms @ teardown_events"
    using s'(2) by (simp add: startup_events_def)
  have "logged lsWARNING (drop (length (trace s)) (trace s')) =
                     map (\<lambda>m. ''websocketpp exception: '' @ m) ms"
    by (simp add: tr logged_append logged_serve_events)
       (simp add: startup_events_def teardown_events_def)
  moreover have "length (filter is_retry (drop (length (trace s)) (trace s'))) = length ms"
    by (simp add: tr retries_serve_events)
       (simp add: startup_events_def teardown_events_def)
  ultimately show "\<exists>s'. run env s = Some (Inr (), s') \<and>
                  trace s' = trace s @ startup_events (port_cfg s) a @
                     serve_events (port_cfg s) a ms @ teardown_events \<and>
                  logged lsWARNING (drop (length (trace s)) (trace s')) =
                     map (\<lambda>m. ''websocketpp exception: '' @ m) ms \<and>
                  length (filter is_retry (drop (length (trace s)) (trace s'))) = length ms"
    using s'(1) tr by (simp add: run_def)
next
  assume "\<forall>k. \<exists>m. serve_outcome env k = Some (websocketpp_exception m)"
  then show "run env s = None"
    using assms by (simp add: run_def run_body_diverges)
next
  fix ms x
  assume h: "(\<forall>i<length ms. serve_outcome env i = Some (websocketpp_exception (ms ! i))) \<and>
               serve_outcome env (length ms) = Some (other_exception x)"
  let ?s1 = "emit (WriteLog lsINFO (startup_message (port_cfg s))) s"
  let ?s' = "(published a ?s1)\<lparr>trace := trace ?s1 @
       [Lock Exec, HandleWrite Exec (Some a), Unlock Exec] @ serve_events (port_cfg ?s1) a ms\<rparr>"
  have free: "m_endpointLock ?s1 = None" using assms(3) by simp
  from run_body_throws [OF assms(1,2) free conjunct1 [OF h] conjunct2 [OF h]]
  have r: "run env s = Some (Inl (Thrown (other_exception x)), ?s')"
    by (simp add: run_def)
  have tr: "trace ?s' = trace s @ startup_events (port_cfg s) a @ serve_events (port_cfg s) a ms"
    by (simp add: startup_events_def)
  have d: "drop (length (trace s)) (trace ?s') =
      startup_events (port_cfg s) a @ serve_events (port_cfg s) a ms"
    unfolding tr by simp
  have 1: "logged lsWARNING (drop (length (trace s)) (trace ?s')) =
                     map (\<lambda>m. ''websocketpp exception: '' @ m) ms"
    unfolding d by (simp add: logged_append logged_serve_events) (simp add: startup_events_def)
  have 2: "length (filter is_retry (drop (length (trace s)) (trace ?s'))) = length ms"
    unfolding d by (simp add: retries_serve_events) (simp add: startup_events_def)
  have 3: "HandleWrite Exec None \<notin> set (drop (length (trace s)) (trace ?s'))"
    unfolding d by (auto simp: startup_events_def serve_events_def warning_event_def)
  have 4: "Stopped \<notin> set (drop (length (trace s)) (trace ?s'))"
    unfolding d using Stopped_notin_serve_events by (simp add: startup_events_def)
  have 5: "m_endpoint ?s' = Some a" by simp
  from r tr 1 2 3 4 5
  show "\<exists>s'. run env s = Some (Inl (Thrown (other_exception x)), s') \<and>
                  trace s' = trace s @ startup_events (port_cfg s) a @
                     serve_events (port_cfg s) a ms \<and>
                  logged lsWARNING (drop (length (trace s)) (trace s')) =
                     map (\<lambda>m. ''websocketpp exception: '' @ m) ms \<and>
                  length (filter is_retry (drop (length (trace s)) (trace s'))) = length ms \<and>
                  HandleWrite Exec None \<notin> set (drop (length (trace s)) (trace s')) \<and>
                  Stopped \<notin> set (drop (length (trace s)) (trace s')) \<and>
                  m_endpoint s' = Some a"
    by blast
qed

theorem run_retries_websocketpp_exceptions_witness:
  "(\<exists>s'. run (env_of None (Inr 0)
              [Some (websocketpp_exception ''race''), Some (websocketpp_exception ''closed'')])
            (init_world peer_ws) = Some (Inr (), s') \<and>
        logged lsWARNING (trace s') =
          [''websocketpp exception: race'', ''websocketpp exception: closed''] \<and>
        length (filter is_retry (trace s')) = 2) \<and>
   run env_racing (init_world peer_ws) = None \<and>
   (\<exists>s'. run (env_of None (Inr 0)
              [Some (websocketpp_exception ''race''), Some (other_exception ''boom'')])
            (init_world peer_ws) = Some (Inl (Thrown (other_exception ''boom'')), s') \<and>
        logged lsWARNING (trace s') = [''websocketpp exception: race''] \<and>
        length (filter is_retry (trace s')) = 1 \<and>
        Stopped \<notin> set (trace s') \<and> m_endpoint s' = Some 0)"
proof -
  have "new_WSServerHandler env_racing = None" "make_endpoint env_racing = Inr 0"
    "m_endpointLock (init_world peer_ws) = None"
    by (simp_all add: env_racing_def init_world_def)
  from run_retries_websocketpp_exceptions [OF this, THEN conjunct2, THEN conjunct1]
  have forever: "run env_racing (init_world peer_ws) = None"
    by (simp add: env_racing_def)
  let ?env = "env_of None (Inr 0)
              [Some (websocketpp_exception ''race''), Some (websocketpp_exception ''closed'')]"
  have o: "(\<forall>i<length [''race'', ''closed''].
              serve_outcome ?env i = Some (websocketpp_exception ([''race'', ''closed''] ! i))) \<and>
           serve_outcome ?env (length [''race'', ''closed'']) = None"
    by (simp add: env_of_def outcomes_of_def less_Suc_eq)
  have "new_WSServerHandler ?env = None" "make_endpoint ?env = Inr 0"
    "m_endpointLock (init_world peer_ws) = None"
    by (simp_all add: env_of_def init_world_def)
  from run_retries_websocketpp_exceptions
         [OF this, THEN conjunct1, rule_format, of "[''race'', ''closed'']", OF o]
  have returns: "\<exists>s'. run ?env (init_world peer_ws) = Some (Inr (), s') \<and>
        logged lsWARNING (trace s') =
          [''websocketpp exception: race'', ''websocketpp exception: closed''] \<and>
        length (filter is_retry (trace s')) = 2"
    by (auto simp: init_world_def)
  let ?env' = "env_of None (Inr 0)
              [Some (websocketpp_exception ''race''), Some (other_exception ''boom'')]"
  have o': "(\<forall>i<length [''race''].
              serve_outcome ?env' i = Some (websocketpp_exception ([''race''] ! i))) \<and>
           serve_outcome ?env' (length [''race'']) = Some (other_exception ''boom'')"
    by (simp add: env_of_def outcomes_of_def)
  have "new_WSServerHandler ?env' = None" "make_endpoint ?env' = Inr 0"
    "m_endpointLock (init_world peer_ws) = None"
    by (simp_all add: env_of_def init_world_def)
  from run_retries_websocketpp_exceptions
         [OF this, THEN conjunct2, THEN conjunct2, rule_format, of "[''race'']", OF o']
  have throws: "\<exists>s'. run ?env' (init_world peer_ws) =
            Some (Inl (Thrown (other_exception ''boom'')), s') \<and>
        logged lsWARNING (trace s') = [''websocketpp exception: race''] \<and>
        length (filter is_retry (trace s')) = 1 \<and>
        Stopped \<notin> set (trace s') \<and> m_endpoint s' = Some 0"
    by (auto simp: init_world_def)
  from returns forever throws show ?thesis by blast
qed

theorem run_other_exception_counterexample:
  "fst (the (run (env_of None (Inr 0) [Some (other_exception ''bind''), None])
               (init_world peer_ws))) = Inl (Thrown (other_exception ''bind'')) \<and>
   trace (snd (the (run (env_of None (Inr 0) [Some (other_exception ''bind''), None])
               (init_world peer_ws)))) =
     [WriteLog lsINFO (startup_message peer_ws), Lock Exec, HandleWrite Exec (Some 0),
      Unlock Exec, HandleRead Exec, Listen 0 ''127.0.0.1'' 6206]"
  by (simp add: run_def run_body_def serve_def acquire_def init_world_def env_of_def
      outcomes_of_def deref_def peer_ws_def)

text \<open>
  Claim C2, as amended. In \<open>run()\<close>, the writes of \<open>m_endpoint\<close> happen inside a scope
  of \<open>m_endpointLock\<close> and the reads (for \<open>listen\<close> and for \<open>get_io_service ().run ()\<close>)
  happen outside of any; in \<open>onStop()\<close>, every access of \<open>m_endpoint\<close> happens inside a
  scope of the lock. The same holds of the trace of the two threads, however they
  interleave: an access is made by a thread inside a scope of the lock exactly when it is
  not a read by the thread of \<open>run()\<close>.
\<close>

theorem endpoint_accesses_and_lock:
  "(run env s = Some (r, s') \<longrightarrow>
      (\<forall>(e, held) \<in> set (holding (\<lambda>t. 0) (drop (length (trace s)) (trace s'))).
          is_access e \<longrightarrow> (held \<longleftrightarrow> is_write e))) \<and>
   (onStop env'' t w = Some (r', w') \<longrightarrow>
      (\<forall>(e, held) \<in> set (holding (\<lambda>t. 0) (drop (length (trace w)) (trace w'))).
          is_access e \<longrightarrow> held)) \<and>
   (exec env' sched (init_system p) = Some \<sigma> \<longrightarrow>
      (\<forall>(e, held) \<in> set (holding (\<lambda>t. 0) (trace (shared \<sigma>))).
          is_access e \<longrightarrow> (held \<longleftrightarrow> e \<noteq> HandleRead Exec)))"
proof (intro conjI impI)
  assume "run env s = Some (r, s')"
  then show "\<forall>(e, held) \<in> set (holding (\<lambda>t. 0) (drop (length (trace s)) (trace s'))).
          is_access e \<longrightarrow> (held \<longleftrightarrow> is_write e)"
    using run_accesses by blast
next
  assume "onStop env'' t w = Some (r', w')"
  from onStop_Some(2) [OF this]
  have "holding (\<lambda>t. 0) (drop (length (trace w)) (trace w')) =
         (HandleRead t, True) #
         (case m_endpoint w of None \<Rightarrow> [] | Some a \<Rightarrow> [(EndpointStop t a, False)]) @
         (case r' of Inl f \<Rightarrow> [] | Inr u \<Rightarrow> [(SignalThreadShouldExit t, False)])"
    by (simp add: holding_onStop [where h = "\<lambda>t. 0", simplified] split: option.splits sum.splits)
  then show "\<forall>(e, held) \<in> set (holding (\<lambda>t. 0) (drop (length (trace w)) (trace w'))).
          is_access e \<longrightarrow> held"
    by (auto split: option.splits sum.splits)
next
  assume "exec env' sched (init_system p) = Some \<sigma>"
  from reachable_inv [OF this] have "calls_inv \<sigma>" by (simp add: system_inv_def)
  then show "\<forall>(e, held) \<in> set (holding (\<lambda>t. 0) (trace (shared \<sigma>))).
          is_access e \<longrightarrow> (held \<longleftrightarrow> e \<noteq> HandleRead Exec)"
    by (auto simp: calls_inv_def)
qed

theorem endpoint_accesses_and_lock_witness:
  "run (env_of None (Inr 0) []) (init_world peer_ws) \<noteq> None \<and>
   onStop (env_of None (Inr 0) []) (Caller 0) (init_world peer_ws) \<noteq> None \<and>
   list_all (\<lambda>(e, held). is_access e \<longrightarrow> (held \<longleftrightarrow> is_write e))
     (holding (\<lambda>t. 0) (trace (snd (the (run (env_of None (Inr 0) []) (init_world peer_ws)))))) \<and>
   list_all (\<lambda>(e, held). is_access e \<longrightarrow> held)
     (holding (\<lambda>t. 0) (trace (snd (the (onStop (env_of None (Inr 0) []) (Caller 0) (init_world peer_ws)))))) \<and>
   exec (env_of None (Inr 0) []) sched_two_stops (init_system peer_ws) \<noteq> None \<and>
   list_all (\<lambda>(e, held). is_access e \<longrightarrow> (held \<longleftrightarrow> e \<noteq> HandleRead Exec))
     (holding (\<lambda>t. 0) (trace (shared
        (the (exec (env_of None (Inr 0) []) sched_two_stops (init_system peer_ws))))))"
proof -
  let ?env = "env_of None (Inr 0) []" and ?w = "init_world peer_ws"
  define rs where "rs = the (run ?env ?w)"
  define os where "os = the (onStop ?env (Caller 0) ?w)"
  have r: "run ?env ?w = Some (fst rs, snd rs)"
    by (simp add: rs_def run_peer_ws_clean)
  have o: "onStop ?env (Caller 0) ?w = Some (fst os, snd os)"
    by (simp add: os_def onStop_initial)
  have e: "trace ?w = []" by (simp add: init_world_def)
  let ?x = "exec ?env sched_two_stops (init_system peer_ws)"
  have x: "?x = Some (the ?x)" "?x \<noteq> None" by (simp_all add: exec_two_stops)
  note inst = endpoint_accesses_and_lock
    [of ?env ?w "fst rs" "snd rs" ?env "Caller 0" ?w "fst os" "snd os" ?env sched_two_stops
        peer_ws "the ?x"]
  have "list_all (\<lambda>(e, held). is_access e \<longrightarrow> (held \<longleftrightarrow> is_write e))
     (holding (\<lambda>t. 0) (trace (snd rs)))"
    using inst [THEN conjunct1, THEN mp, OF r] by (simp add: e list_all_iff)
  moreover have "list_all (\<lambda>(e, held). is_access e \<longrightarrow> held)
     (holding (\<lambda>t. 0) (trace (snd os)))"
    using inst [THEN conjunct2, THEN conjunct1, THEN mp, OF o] by (simp add: e list_all_iff)
  moreover have "list_all (\<lambda>(e, held). is_access e \<longrightarrow> (held \<longleftrightarrow> e \<noteq> HandleRead Exec))
     (holding (\<lambda>t. 0) (trace (shared (the ?x))))"
    using inst [THEN conjunct2, THEN conjunct2, THEN mp, OF x(1)] by (simp add: list_all_iff)
  moreover have "run ?env ?w \<noteq> None" "onStop ?env (Caller 0) ?w \<noteq> None"
    by (simp_all add: run_peer_ws_clean onStop_initial)
  ultimately show ?thesis
    using x(2) unfolding rs_def os_def by blast
qed

theorem run_reads_handle_unlocked_counterexample:
  "(HandleRead Exec, False) \<in>
     set (holding (\<lambda>t. 0)
       (trace (snd (the (run (env_of None (Inr 0) []) (init_world peer_ws))))))"
  by (simp add: run_peer_ws_clean)

text \<open>
  Claim C3, as amended. When the constructor of the handler throws, or \<open>make_shared\<close>
  of the endpoint throws, the exception leaves \<open>run()\<close>: \<open>stopped ()\<close> is not called
  (not once), and \<open>m_endpoint\<close> is not written.
\<close>

theorem run_construction_failure:
  assumes "m_endpointLock s = None"
    and "new_WSServerHandler env = Some e \<or>
         (new_WSServerHandler env = None \<and> make_endpoint env = Inl e)"
  shows "\<exists>s'. run env s = Some (Inl (Thrown e), s') \<and>
           trace s' = trace s @ WriteLog lsINFO (startup_message (port_cfg s)) #
              (if new_WSServerHandler env = None then [Lock Exec, Unlock Exec] else []) \<and>
           count_list (drop (length (trace s)) (trace s')) Stopped = 0 \<and>
           m_endpoint s' = m_endpoint s"
  using assms
  by (auto simp: run_def run_body_def acquire_free)

theorem run_construction_failure_witness:
  "(\<exists>s'. run (env_of (Some (other_exception ''bad_alloc'')) (Inr 0) []) (init_world peer_ws) =
           Some (Inl (Thrown (other_exception ''bad_alloc'')), s') \<and>
         count_list (trace s') Stopped = 0) \<and>
   (\<exists>s'. run (env_of None (Inl (other_exception ''bad_alloc'')) []) (init_world peer_ws) =
           Some (Inl (Thrown (other_exception ''bad_alloc'')), s') \<and>
         count_list (trace s') Stopped = 0)"
proof -
  have w: "m_endpointLock (init_world peer_ws) = None" "trace (init_world peer_ws) = []"
    by (simp_all add: init_world_def)
  have h1: "new_WSServerHandler (env_of (Some (other_exception ''bad_alloc'')) (Inr 0) []) =
        Some (other_exception ''bad_alloc'') \<or>
      (new_WSServerHandler (env_of (Some (other_exception ''bad_alloc'')) (Inr 0) []) = None \<and>
       make_endpoint (env_of (Some (other_exception ''bad_alloc'')) (Inr 0) []) =
         Inl (other_exception ''bad_alloc''))"
    by (simp add: env_of_def)
  have h2: "new_WSServerHandler (env_of None (Inl (other_exception ''bad_alloc'')) []) =
        Some (other_exception ''bad_alloc'') \<or>
      (new_WSServerHandler (env_of None (Inl (other_exception ''bad_alloc'')) []) = None \<and>
       make_endpoint (env_of None (Inl (other_exception ''bad_alloc'')) []) =
         Inl (other_exception ''bad_alloc''))"
    by (simp add: env_of_def)
  from run_construction_failure [OF w(1) h1] run_construction_failure [OF w(1) h2]
  show ?thesis
    unfolding w(2) by auto
qed

theorem run_handler_failure_counterexample:
  "fst (the (run (env_of (Some (other_exception ''bad_alloc'')) (Inr 0) [])
               (init_world peer_ws))) = Inl (Thrown (other_exception ''bad_alloc'')) \<and>
   trace (snd (the (run (env_of (Some (other_exception ''bad_alloc'')) (Inr 0) [])
               (init_world peer_ws)))) = [WriteLog lsINFO (startup_message peer_ws)] \<and>
   count_list (trace (snd (the (run (env_of (Some (other_exception ''bad_alloc'')) (Inr 0) [])
               (init_world peer_ws))))) Stopped = 0"
  by (simp add: run_def run_body_def init_world_def env_of_def)

text \<open>
  Claim C4. Let the constructions succeed and nobody hold the mutex. When blocking call
  \<open>j\<close> returns and the calls before it threw \<open>websocketpp::exception\<close>s (so that call
  \<open>j\<close> is made), \<open>run()\<close> returns, and its last events are: the lock, the write of
  null to \<open>m_endpoint\<close>, the unlock, \<open>stopped ()\<close>. \<open>stopped ()\<close> is called once, after
  the write, and \<open>m_endpoint\<close> is null at the end. And however \<open>run()\<close> interleaves
  with invocations of \<open>onStop()\<close>: when the trace holds \<open>stopped ()\<close>, it holds it once,
  the write of null to \<open>m_endpoint\<close> comes before it, and \<open>m_endpoint\<close> is null.
\<close>

theorem run_clears_handle_then_stopped:
  assumes "new_WSServerHandler env = None" and "make_endpoint env = Inr a"
    and "m_endpointLock s = None"
    and "\<forall>i<j. \<exists>m. serve_outcome env i = Some (websocketpp_exception m)"
    and "serve_outcome env j = None"
  shows "(\<exists>s' evs. run env s = Some (Inr (), s') \<and>
           trace s' = trace s @ evs @ [Lock Exec, HandleWrite Exec None, Unlock Exec, Stopped] \<and>
           Stopped \<notin> set evs \<and>
           count_list (drop (length (trace s)) (trace s')) Stopped = 1 \<and>
           m_endpoint s' = None) \<and>
         (exec env' sched (init_system p) = Some \<sigma> \<and> Stopped \<in> set (trace (shared \<sigma>)) \<longrightarrow>
            count_list (trace (shared \<sigma>)) Stopped = 1 \<and>
            HandleWrite Exec None \<in> set (takeWhile (\<lambda>e. e \<noteq> Stopped) (trace (shared \<sigma>))) \<and>
            m_endpoint (shared \<sigma>) = None)"
proof (intro conjI impI)
  define ms where "ms = map (\<lambda>i. what (the (serve_outcome env i))) [0..<j]"
  have len: "length ms = j" by (simp add: ms_def)
  have ws: "\<forall>i<length ms. serve_outcome env i = Some (websocketpp_exception (ms ! i))"
    using assms(4) by (auto simp: ms_def)
  have fin: "serve_outcome env (length ms) = None"
    using assms(5) len by simp
  let ?s1 = "emit (WriteLog lsINFO (startup_message (port_cfg s))) s"
  let ?evs = "startup_events (port_cfg s) a @ serve_events (port_cfg s) a ms"
  have free: "m_endpointLock ?s1 = None" using assms(3) by simp
  from run_body_returns [OF assms(1,2) free ws fin]
  obtain s' where s': "run_body env ?s1 = Some (Inr (), s')"
    "trace s' = trace ?s1 @ [Lock Exec, HandleWrite Exec (Some a), Unlock Exec] @
              serve_events (port_cfg ?s1) a ms @ teardown_events"
    "m_endpoint s' = None"
    by blast
  have tr: "trace s' = trace s @ ?evs @ [Lock Exec, HandleWrite Exec None, Unlock Exec, Stopped]"
    using s'(2) by (simp add: startup_events_def teardown_events_def)
  have no: "Stopped \<notin> set ?evs"
    using Stopped_notin_serve_events by (simp add: startup_events_def)
  then have "count_list ?evs Stopped = 0" by (simp add: count_list_0_iff)
  then have "count_list (drop (length (trace s)) (trace s')) Stopped = 1"
    by (simp add: tr)
  with s'(1,3) tr no
  show "\<exists>s' evs. run env s = Some (Inr (), s') \<and>
           trace s' = trace s @ evs @ [Lock Exec, HandleWrite Exec None, Unlock Exec, Stopped] \<and>
           Stopped \<notin> set evs \<and>
           count_list (drop (length (trace s)) (trace s')) Stopped = 1 \<and>
           m_endpoint s' = None"
    by (auto simp: run_def)
next
  assume h: "exec env' sched (init_system p) = Some \<sigma> \<and> Stopped \<in> set (trace (shared \<sigma>))"
  from reachable_inv [OF conjunct1 [OF h]]
  have inv: "stopped_inv \<sigma>" "order_inv \<sigma>" "handle_inv \<sigma>"
    by (simp_all add: system_inv_def)
  have pos: "count_list (trace (shared \<sigma>)) Stopped \<noteq> 0"
    using h by (simp add: count_list_0_iff)
  with inv(1) have ret: "exec_pc \<sigma> = R_returned"
    by (auto simp: stopped_inv_def split: if_splits)
  show "count_list (trace (shared \<sigma>)) Stopped = 1"
    using inv(1) ret by (simp add: stopped_inv_def)
  show "HandleWrite Exec None \<in> set (takeWhile (\<lambda>e. e \<noteq> Stopped) (trace (shared \<sigma>)))"
    using inv(2) h by (simp add: order_inv_def)
  show "m_endpoint (shared \<sigma>) = None"
    using inv(3) ret by (simp add: handle_inv_def)
qed

theorem run_clears_handle_then_stopped_witness:
  "(\<exists>s'. run (env_of None (Inr 0) [Some (websocketpp_exception ''race'')]) (init_world peer_ws) =
           Some (Inr (), s') \<and>
        count_list (trace s') Stopped = 1 \<and> m_endpoint s' = None \<and>
        drop (length (trace s') - 4) (trace s') =
          [Lock Exec, HandleWrite Exec None, Unlock Exec, Stopped]) \<and>
   exec (env_of None (Inr 0) []) sched_reset_before_stop (init_system peer_ws) \<noteq> None \<and>
   Stopped \<in> set (trace (shared
     (the (exec (env_of None (Inr 0) []) sched_reset_before_stop (init_system peer_ws))))) \<and>
   HandleWrite Exec None \<in> set (takeWhile (\<lambda>e. e \<noteq> Stopped) (trace (shared
     (the (exec (env_of None (Inr 0) []) sched_reset_before_stop (init_system peer_ws))))))"
proof -
  let ?x = "exec (env_of None (Inr 0) []) sched_reset_before_stop (init_system peer_ws)"
  have x: "?x = Some (the ?x) \<and> Stopped \<in> set (trace (shared (the ?x)))" "?x \<noteq> None"
    by (simp_all add: exec_reset_before_stop)
  let ?env = "env_of None (Inr 0) [Some (websocketpp_exception ''race'')]"
  have h: "new_WSServerHandler ?env = None" "make_endpoint ?env = Inr 0"
    "m_endpointLock (init_world peer_ws) = None"
    "\<forall>i<1. \<exists>m. serve_outcome ?env i = Some (websocketpp_exception m)"
    "serve_outcome ?env 1 = None"
    by (simp_all add: env_of_def outcomes_of_def init_world_def)
  have e: "trace (init_world peer_ws) = []" by (simp add: init_world_def)
  note inst = run_clears_handle_then_stopped
    [OF h, of "env_of None (Inr 0) []" sched_reset_before_stop peer_ws "the ?x"]
  from inst [THEN conjunct2, THEN mp, OF x(1)]
  have "HandleWrite Exec None \<in> set (takeWhile (\<lambda>e. e \<noteq> Stopped) (trace (shared (the ?x))))"
    by simp
  with inst [THEN conjunct1] x show ?thesis
    unfolding e by auto
qed

text \<open>
  Claim C5, as amended. However \<open>run()\<close> and any number of invocations of \<open>onStop()\<close>
  interleave, \<open>stopped ()\<close> has been called at most once, and exactly once when \<open>run()\<close>
  has returned. No invocation of \<open>onStop()\<close> dereferences a null pointer or calls into a
  destroyed endpoint: an invocation that was left otherwise than by returning was left by
  the exception that its own call of \<open>stop ()\<close> threw. An invocation that has not ended
  can take its next step whenever the mutex is free, unless it is inside a call of
  \<open>stop ()\<close> that never returns. An invocation that begins when \<open>m_endpoint\<close> is
  null does not call \<open>stop ()\<close>: it locks, reads, unlocks, signals and returns. An
  invocation that begins when \<open>m_endpoint\<close> refers to an endpoint calls \<open>stop ()\<close> on
  it, whether or not \<open>stop ()\<close> has been called before; and when that call throws, the
  next step of the invocation is to leave \<open>onStop()\<close> with the exception.
\<close>

theorem stop_is_idempotent:
  assumes "exec env sched (init_system p) = Some \<sigma>"
  shows "count_list (trace (shared \<sigma>)) Stopped \<le> 1 \<and>
         (count_list (trace (shared \<sigma>)) Stopped = 1 \<longleftrightarrow> exec_pc \<sigma> = R_returned) \<and>
         (\<forall>n f. caller_pc \<sigma> n = S_aborted f \<longrightarrow>
              (\<exists>e. f = Thrown e \<and> stop_outcome env (Caller n) = Throws e)) \<and>
         (\<forall>n. m_endpointLock (shared \<sigma>) = None \<and> caller_pc \<sigma> n \<noteq> S_returned \<and>
              (\<forall>f. caller_pc \<sigma> n \<noteq> S_aborted f) \<and>
              (\<forall>q. caller_pc \<sigma> n = S_stopping q \<longrightarrow>
                   stop_outcome env (Caller n) \<noteq> NeverReturns) \<longrightarrow>
              step env (Caller n) \<sigma> \<noteq> None) \<and>
         (\<forall>n. m_endpoint (shared \<sigma>) = None \<and> m_endpointLock (shared \<sigma>) = None \<and>
              caller_pc \<sigma> n = S_lock \<longrightarrow>
              (\<exists>\<sigma>'. exec env (replicate 6 (Caller n)) \<sigma> = Some \<sigma>' \<and>
                    caller_pc \<sigma>' n = S_returned \<and>
                    trace (shared \<sigma>') = trace (shared \<sigma>) @
                      [Lock (Caller n), HandleRead (Caller n), Unlock (Caller n),
                       SignalThreadShouldExit (Caller n)])) \<and>
         (\<forall>n a. m_endpoint (shared \<sigma>) = Some a \<and> m_endpointLock (shared \<sigma>) = None \<and>
              caller_pc \<sigma> n = S_lock \<longrightarrow>
              (\<exists>\<sigma>'. exec env (replicate 4 (Caller n)) \<sigma> = Some \<sigma>' \<and>
                    caller_pc \<sigma>' n = S_stopping (Some a) \<and>
                    trace (shared \<sigma>') = trace (shared \<sigma>) @
                      [Lock (Caller n), HandleRead (Caller n), Unlock (Caller n),
                       EndpointStop (Caller n) a])) \<and>
         (\<forall>n q e. caller_pc \<sigma> n = S_stopping q \<and> stop_outcome env (Caller n) = Throws e \<longrightarrow>
              (\<exists>\<sigma>'. step env (Caller n) \<sigma> = Some \<sigma>' \<and>
                    caller_pc \<sigma>' n = S_aborted (Thrown e) \<and>
                    trace (shared \<sigma>') = trace (shared \<sigma>)))"
proof -
  from reachable_inv [OF assms] have st: "stopped_inv \<sigma>" and nf: "nofault_inv env \<sigma>"
    by (simp_all add: system_inv_def)
  have 1: "count_list (trace (shared \<sigma>)) Stopped \<le> 1"
    "count_list (trace (shared \<sigma>)) Stopped = 1 \<longleftrightarrow> exec_pc \<sigma> = R_returned"
    using st by (simp_all add: stopped_inv_def)
  have 2: "\<forall>n f. caller_pc \<sigma> n = S_aborted f \<longrightarrow>
              (\<exists>e. f = Thrown e \<and> stop_outcome env (Caller n) = Throws e)"
    using nf by (simp add: nofault_inv_def)
  have 3: "step env (Caller n) \<sigma> \<noteq> None"
    if "m_endpointLock (shared \<sigma>) = None" "caller_pc \<sigma> n \<noteq> S_returned"
      "\<forall>f. caller_pc \<sigma> n \<noteq> S_aborted f"
      "\<forall>q. caller_pc \<sigma> n = S_stopping q \<longrightarrow> stop_outcome env (Caller n) \<noteq> NeverReturns" for n
    using that
    by (cases "caller_pc \<sigma> n")
       (auto simp: acquire_free split: option.splits sum.splits call_end.splits)
  have 4: "\<exists>\<sigma>'. exec env (replicate 6 (Caller n)) \<sigma> = Some \<sigma>' \<and>
                    caller_pc \<sigma>' n = S_returned \<and>
                    trace (shared \<sigma>') = trace (shared \<sigma>) @
                      [Lock (Caller n), HandleRead (Caller n), Unlock (Caller n),
                       SignalThreadShouldExit (Caller n)]"
    if "m_endpoint (shared \<sigma>) = None" "m_endpointLock (shared \<sigma>) = None"
      "caller_pc \<sigma> n = S_lock" for n
    using that by (simp add: numeral_eq_Suc acquire_free)
  have 5: "\<exists>\<sigma>'. exec env (replicate 4 (Caller n)) \<sigma> = Some \<sigma>' \<and>
                    caller_pc \<sigma>' n = S_stopping (Some a) \<and>
                    trace (shared \<sigma>') = trace (shared \<sigma>) @
                      [Lock (Caller n), HandleRead (Caller n), Unlock (Caller n),
                       EndpointStop (Caller n) a]"
    if "m_endpoint (shared \<sigma>) = Some a" "m_endpointLock (shared \<sigma>) = None"
      "caller_pc \<sigma> n = S_lock" for n a
    using that by (simp add: numeral_eq_Suc acquire_free deref_def owners_add_owner)
  have 6: "\<exists>\<sigma>'. step env (Caller n) \<sigma> = Some \<sigma>' \<and>
                    caller_pc \<sigma>' n = S_aborted (Thrown e) \<and>
                    trace (shared \<sigma>') = trace (shared \<sigma>)"
    if "caller_pc \<sigma> n = S_stopping q" "stop_outcome env (Caller n) = Throws e" for n q e
    using that by simp
  from 1 2 3 4 5 6 show ?thesis by blast
qed

theorem stop_is_idempotent_witness:
  "exec (env_of None (Inr 0) []) sched_two_stops (init_system peer_ws) \<noteq> None \<and>
   count_list (trace (shared
     (the (exec (env_of None (Inr 0) []) sched_two_stops (init_system peer_ws))))) Stopped = 1 \<and>
   caller_pc (the (exec (env_of None (Inr 0) []) sched_two_stops (init_system peer_ws))) 0 =
     S_returned \<and>
   caller_pc (the (exec (env_of None (Inr 0) []) sched_two_stops (init_system peer_ws))) 1 =
     S_returned \<and>
   exec (env_stop second_stop_throws) sched_second_stop_live (init_system peer_ws) \<noteq> None \<and>
   count_list (trace (shared
     (the (exec (env_stop second_stop_throws) sched_second_stop_live (init_system peer_ws)))))
     Stopped \<le> 1 \<and>
   stop_outcome (env_stop second_stop_throws) (Caller 1) =
     Throws (websocketpp_exception ''invalid state'')"
proof -
  let ?e = "exec (env_of None (Inr 0) []) sched_two_stops (init_system peer_ws)"
  have e: "?e = Some (the ?e)" by (simp add: exec_two_stops)
  have pc: "exec_pc (the ?e) = R_returned" "caller_pc (the ?e) 0 = S_returned"
    "caller_pc (the ?e) 1 = S_returned"
    by (simp_all add: exec_two_stops)
  have ne: "?e \<noteq> None" by (simp add: exec_two_stops)
  from stop_is_idempotent [OF e] pc(1)
  have one: "count_list (trace (shared (the ?e))) Stopped = 1" by blast
  let ?x = "exec (env_stop second_stop_throws) sched_second_stop_live (init_system peer_ws)"
  have x: "?x = Some (the ?x)" "?x \<noteq> None"
    by (simp_all add: exec_second_stop_throws)
  have ab: "caller_pc (the ?x) 1 = S_aborted (Thrown (websocketpp_exception ''invalid state''))"
    by (simp add: exec_second_stop_throws)
  from stop_is_idempotent [OF x(1)] ab
  have "count_list (trace (shared (the ?x))) Stopped \<le> 1"
    and "stop_outcome (env_stop second_stop_throws) (Caller 1) =
           Throws (websocketpp_exception ''invalid state'')"
    by auto
  with ne pc one x(2) show ?thesis by blast
qed

theorem second_onStop_faults_counterexample:
  "exec (env_stop second_stop_throws) sched_second_stop_live (init_system peer_ws) \<noteq> None \<and>
   caller_pc (the (exec (env_stop second_stop_throws) sched_second_stop_live
     (init_system peer_ws))) 0 = S_returned \<and>
   caller_pc (the (exec (env_stop second_stop_throws) sched_second_stop_live
     (init_system peer_ws))) 1 = S_aborted (Thrown (websocketpp_exception ''invalid state'')) \<and>
   fst (the (onStop (env_stop second_stop_throws) (Caller 1)
     (snd (the (onStop (env_stop second_stop_throws) (Caller 0) serving_world))))) =
     Inl (Thrown (websocketpp_exception ''invalid state''))"
  by (simp add: exec_second_stop_throws)
     (simp add: onStop_def Let_def env_stop_def second_stop_throws_def env_of_def
        serving_world_def published_def acquire_def release_def assign_endpoint_def add_owner_def drop_owner_def
        deref_def emit_def signalThreadShouldExit_def init_world_def peer_ws_def)

text \<open>
  Claim C6. An invocation of \<open>onStop()\<close> that gets the mutex reads \<open>m_endpoint\<close> once,
  inside the lock, and calls \<open>stop ()\<close> on an endpoint exactly when the value read is that
  endpoint (so not at all when it is null); it changes the exit flag and nothing
  else of the listener. This is so however the call of \<open>stop ()\<close> ends: when it returns
  (or is not made) the invocation returns after the signal, when it throws the exception
  leaves the invocation after the call, and when it never returns the invocation has made
  the call and stays inside it. \<open>run()\<close> does not read the flag: with the flag set or
  not, it ends in the same way after the same events, or not at all. Whether \<open>run()\<close> ends
  is decided by the constructions and the blocking calls alone; and the steps of
  \<open>onStop()\<close> do not move \<open>run()\<close>.
\<close>

theorem onStop_requests_stop_and_run_ignores_flag:
  assumes "m_endpointLock s = None"
  shows "(m_endpoint s = None \<or> stop_outcome env t = Returns \<longrightarrow>
          (\<exists>s'. onStop env t s = Some (Inr (), s') \<and>
            trace s' = trace s @ [Lock t, HandleRead t, Unlock t] @
              (case m_endpoint s of None \<Rightarrow> [] | Some a \<Rightarrow> [EndpointStop t a]) @
              [SignalThreadShouldExit t] \<and>
            (\<forall>a. EndpointStop t a \<in> set (drop (length (trace s)) (trace s')) \<longleftrightarrow>
                 m_endpoint s = Some a) \<and>
            m_endpoint s' = m_endpoint s \<and> m_endpointLock s' = None \<and>
            port_cfg s' = port_cfg s)) \<and>
         (\<forall>a e. m_endpoint s = Some a \<and> stop_outcome env t = Throws e \<longrightarrow>
          (\<exists>s'. onStop env t s = Some (Inl (Thrown e), s') \<and>
            trace s' = trace s @ [Lock t, HandleRead t, Unlock t, EndpointStop t a] \<and>
            m_endpoint s' = m_endpoint s \<and> m_endpointLock s' = None \<and>
            port_cfg s' = port_cfg s)) \<and>
         (\<forall>a n c pc. m_endpoint s = Some a \<and> c n = S_lock \<longrightarrow>
          (stop_outcome env (Caller n) = NeverReturns \<longrightarrow> onStop env (Caller n) s = None) \<and>
          (\<exists>s4. exec env (replicate 4 (Caller n)) \<lparr>shared = s, exec_pc = pc, caller_pc = c\<rparr> =
                  Some \<lparr>shared = s4, exec_pc = pc, caller_pc = c(n := S_stopping (Some a))\<rparr> \<and>
                trace s4 = trace s @ [Lock (Caller n), HandleRead (Caller n), Unlock (Caller n),
                                      EndpointStop (Caller n) a])) \<and>
         (\<forall>r s'. onStop env t s = Some (r, s') \<longrightarrow>
            (\<forall>a. EndpointStop t a \<in> set (drop (length (trace s)) (trace s')) \<longleftrightarrow>
                 m_endpoint s = Some a) \<and>
            length (filter is_access (drop (length (trace s)) (trace s'))) = 1 \<and>
            m_endpoint s' = m_endpoint s \<and> m_endpointLock s' = None \<and>
            port_cfg s' = port_cfg s) \<and>
         ((run env s = None \<and> run env (s\<lparr>threadShouldExit := b\<rparr>) = None) \<or>
          (\<exists>r s' w'. run env s = Some (r, s') \<and>
              run env (s\<lparr>threadShouldExit := b\<rparr>) = Some (r, w') \<and>
              drop (length (trace s)) (trace s') = drop (length (trace s)) (trace w'))) \<and>
         (run env s \<noteq> None \<longleftrightarrow>
            new_WSServerHandler env \<noteq> None \<or> (\<exists>e. make_endpoint env = Inl e) \<or>
            (\<exists>j. \<forall>m. serve_outcome env j \<noteq> Some (websocketpp_exception m))) \<and>
         (\<forall>sched \<sigma> \<sigma>'. exec env sched \<sigma> = Some \<sigma>' \<and> Exec \<notin> set sched \<longrightarrow>
            exec_pc \<sigma>' = exec_pc \<sigma>)"
proof (intro conjI)
  show "m_endpoint s = None \<or> stop_outcome env t = Returns \<longrightarrow>
          (\<exists>s'. onStop env t s = Some (Inr (), s') \<and>
            trace s' = trace s @ [Lock t, HandleRead t, Unlock t] @
              (case m_endpoint s of None \<Rightarrow> [] | Some a \<Rightarrow> [EndpointStop t a]) @
              [SignalThreadShouldExit t] \<and>
            (\<forall>a. EndpointStop t a \<in> set (drop (length (trace s)) (trace s')) \<longleftrightarrow>
                 m_endpoint s = Some a) \<and>
            m_endpoint s' = m_endpoint s \<and> m_endpointLock s' = None \<and>
            port_cfg s' = port_cfg s)"
  proof
    assume "m_endpoint s = None \<or> stop_outcome env t = Returns"
    from onStop_returns [OF assms this] obtain s' where
      s': "onStop env t s = Some (Inr (), s')"
      "trace s' = trace s @ [Lock t, HandleRead t, Unlock t] @
               (case m_endpoint s of None \<Rightarrow> [] | Some a \<Rightarrow> [EndpointStop t a]) @
               [SignalThreadShouldExit t]"
      "m_endpoint s' = m_endpoint s" "port_cfg s' = port_cfg s" "m_endpointLock s' = None"
      by blast
    have "\<forall>a. EndpointStop t a \<in> set (drop (length (trace s)) (trace s')) \<longleftrightarrow>
                   m_endpoint s = Some a"
      by (auto simp: s'(2) split: option.splits)
    with s' show "\<exists>s'. onStop env t s = Some (Inr (), s') \<and>
            trace s' = trace s @ [Lock t, HandleRead t, Unlock t] @
              (case m_endpoint s of None \<Rightarrow> [] | Some a \<Rightarrow> [EndpointStop t a]) @
              [SignalThreadShouldExit t] \<and>
            (\<forall>a. EndpointStop t a \<in> set (drop (length (trace s)) (trace s')) \<longleftrightarrow>
                 m_endpoint s = Some a) \<and>
            m_endpoint s' = m_endpoint s \<and> m_endpointLock s' = None \<and>
            port_cfg s' = port_cfg s"
      by blast
  qed
next
  show "\<forall>a e. m_endpoint s = Some a \<and> stop_outcome env t = Throws e \<longrightarrow>
          (\<exists>s'. onStop env t s = Some (Inl (Thrown e), s') \<and>
            trace s' = trace s @ [Lock t, HandleRead t, Unlock t, EndpointStop t a] \<and>
            m_endpoint s' = m_endpoint s \<and> m_endpointLock s' = None \<and>
            port_cfg s' = port_cfg s)"
    using onStop_throws [OF assms] by blast
next
  show "\<forall>a n c pc. m_endpoint s = Some a \<and> c n = S_lock \<longrightarrow>
          (stop_outcome env (Caller n) = NeverReturns \<longrightarrow> onStop env (Caller n) s = None) \<and>
          (\<exists>s4. exec env (replicate 4 (Caller n)) \<lparr>shared = s, exec_pc = pc, caller_pc = c\<rparr> =
                  Some \<lparr>shared = s4, exec_pc = pc, caller_pc = c(n := S_stopping (Some a))\<rparr> \<and>
                trace s4 = trace s @ [Lock (Caller n), HandleRead (Caller n), Unlock (Caller n),
                                      EndpointStop (Caller n) a])"
  proof (intro allI impI conjI)
    fix a and n :: nat and c pc
    assume h: "m_endpoint s = Some a \<and> c n = S_lock"
    show "onStop env (Caller n) s = None" if "stop_outcome env (Caller n) = NeverReturns"
      using onStop_free [OF assms, of env "Caller n"] h that by simp
    from onStop_blocked_solo
      [where s = s and a = a and c = c and n = n and env = env and pc = pc,
       OF assms conjunct1 [OF h] conjunct2 [OF h]]
    show "\<exists>s4. exec env (replicate 4 (Caller n)) \<lparr>shared = s, exec_pc = pc, caller_pc = c\<rparr> =
                  Some \<lparr>shared = s4, exec_pc = pc, caller_pc = c(n := S_stopping (Some a))\<rparr> \<and>
                trace s4 = trace s @ [Lock (Caller n), HandleRead (Caller n), Unlock (Caller n),
                                      EndpointStop (Caller n) a]"
      by blast
  qed
next
  show "\<forall>r s'. onStop env t s = Some (r, s') \<longrightarrow>
            (\<forall>a. EndpointStop t a \<in> set (drop (length (trace s)) (trace s')) \<longleftrightarrow>
                 m_endpoint s = Some a) \<and>
            length (filter is_access (drop (length (trace s)) (trace s'))) = 1 \<and>
            m_endpoint s' = m_endpoint s \<and> m_endpointLock s' = None \<and>
            port_cfg s' = port_cfg s"
  proof (intro allI impI)
    fix r s'
    assume o: "onStop env t s = Some (r, s')"
    note f = onStop_Some [OF o]
    have "\<forall>a. EndpointStop t a \<in> set (drop (length (trace s)) (trace s')) \<longleftrightarrow>
                 m_endpoint s = Some a"
      by (auto simp: f(2) split: option.splits sum.splits)
    moreover have "length (filter is_access (drop (length (trace s)) (trace s'))) = 1"
      by (simp add: f(2) split: option.splits sum.splits)
    ultimately show "(\<forall>a. EndpointStop t a \<in> set (drop (length (trace s)) (trace s')) \<longleftrightarrow>
                 m_endpoint s = Some a) \<and>
            length (filter is_access (drop (length (trace s)) (trace s'))) = 1 \<and>
            m_endpoint s' = m_endpoint s \<and> m_endpointLock s' = None \<and>
            port_cfg s' = port_cfg s"
      using f(4,5) onStop_unlocks [OF assms o] by blast
  qed
next
  let ?L = "WriteLog lsINFO (startup_message (port_cfg s))"
  let ?w = "s\<lparr>threadShouldExit := b\<rparr>"
  have r1: "run env s = run_body env (emit ?L s)"
    by (simp add: run_def)
  have e: "emit ?L ?w = (emit ?L s)\<lparr>threadShouldExit := b\<rparr>"
    by (simp add: emit_def)
  have r2: "run env ?w = run_body env ((emit ?L s)\<lparr>threadShouldExit := b\<rparr>)"
    by (simp add: run_def e)
  have "m_endpointLock (emit ?L s) = None" "m_endpointLock ((emit ?L s)\<lparr>threadShouldExit := b\<rparr>) = None"
    "port_cfg (emit ?L s) = port_cfg ((emit ?L s)\<lparr>threadShouldExit := b\<rparr>)"
    using assms by simp_all
  from run_body_same_control [OF this, of env]
  show "(run env s = None \<and> run env ?w = None) \<or>
          (\<exists>r s' w'. run env s = Some (r, s') \<and> run env ?w = Some (r, w') \<and>
              drop (length (trace s)) (trace s') = drop (length (trace s)) (trace w'))"
  proof (elim disjE exE conjE)
    fix r s' w'
    assume h: "run_body env (emit ?L s) = Some (r, s')"
      "run_body env ((emit ?L s)\<lparr>threadShouldExit := b\<rparr>) = Some (r, w')"
      "drop (length (trace (emit ?L s))) (trace s') =
       drop (length (trace ((emit ?L s)\<lparr>threadShouldExit := b\<rparr>))) (trace w')"
    from run_body_Some [OF h(1)] obtain evs where evs: "trace s' = (trace s @ [?L]) @ evs"
      by (elim disjE exE conjE) simp_all
    from run_body_Some [OF h(2)] obtain evs' where evs': "trace w' = (trace s @ [?L]) @ evs'"
      by (elim disjE exE conjE) simp_all
    have "drop (length (trace s)) (trace s') = drop (length (trace s)) (trace w')"
      using h(3) evs evs' by simp
    with h(1,2) show ?thesis unfolding r1 r2 by blast
  qed (simp add: r1 r2)
next
  show "run env s \<noteq> None \<longleftrightarrow>
            new_WSServerHandler env \<noteq> None \<or> (\<exists>e. make_endpoint env = Inl e) \<or>
            (\<exists>j. \<forall>m. serve_outcome env j \<noteq> Some (websocketpp_exception m))"
    by (rule run_terminates_iff [OF assms])
next
  show "\<forall>sched \<sigma> \<sigma>'. exec env sched \<sigma> = Some \<sigma>' \<and> Exec \<notin> set sched \<longrightarrow>
            exec_pc \<sigma>' = exec_pc \<sigma>"
    using exec_callers_exec_pc by blast
qed

theorem onStop_requests_stop_and_run_ignores_flag_witness:
  "(\<exists>s'. onStop env_racing (Caller 0) serving_world = Some (Inr (), s') \<and>
         EndpointStop (Caller 0) 0 \<in> set (drop (length (trace serving_world)) (trace s'))) \<and>
   (\<exists>s'. onStop env_racing (Caller 0) (init_world peer_ws) = Some (Inr (), s') \<and>
         EndpointStop (Caller 0) 0 \<notin> set (trace s')) \<and>
   (\<exists>s'. onStop (env_stop stop_throws) (Caller 0) serving_world =
           Some (Inl (Thrown (websocketpp_exception ''invalid state'')), s') \<and>
         EndpointStop (Caller 0) 0 \<in> set (drop (length (trace serving_world)) (trace s'))) \<and>
   onStop (env_stop stop_blocks) (Caller 0) serving_world = None \<and>
   run env_racing (init_world peer_ws) = None \<and>
   run env_racing ((init_world peer_ws)\<lparr>threadShouldExit := True\<rparr>) = None \<and>
   run (env_of None (Inr 0) []) ((init_world peer_ws)\<lparr>threadShouldExit := True\<rparr>) \<noteq> None"
proof -
  let ?w = "init_world peer_ws"
  have w: "m_endpointLock ?w = None" "m_endpoint ?w = None" "trace ?w = []"
    by (simp_all add: init_world_def)
  have ret: "stop_outcome env_racing (Caller 0) = Returns"
    by (simp add: env_racing_def)
  have thr: "stop_outcome (env_stop stop_throws) (Caller 0) =
      Throws (websocketpp_exception ''invalid state'')"
    by (simp add: env_stop_def stop_throws_def)
  have blk: "stop_outcome (env_stop stop_blocks) (Caller 0) = NeverReturns"
    by (simp add: env_stop_def stop_blocks_def)
  note serving = onStop_requests_stop_and_run_ignores_flag
    [OF serving_world_fields(1), of _ "Caller 0" True]
  note initial = onStop_requests_stop_and_run_ignores_flag [OF w(1), of _ "Caller 0" True]
  have 1: "\<exists>s'. onStop env_racing (Caller 0) serving_world = Some (Inr (), s') \<and>
         EndpointStop (Caller 0) 0 \<in> set (drop (length (trace serving_world)) (trace s'))"
    using serving [of env_racing, THEN conjunct1] serving_world_fields(2) ret by auto
  have 2: "\<exists>s'. onStop env_racing (Caller 0) ?w = Some (Inr (), s') \<and>
         EndpointStop (Caller 0) 0 \<notin> set (trace s')"
    using initial [of env_racing, THEN conjunct1] w(2,3) by auto
  have 3: "\<exists>s'. onStop (env_stop stop_throws) (Caller 0) serving_world =
           Some (Inl (Thrown (websocketpp_exception ''invalid state'')), s') \<and>
         EndpointStop (Caller 0) 0 \<in> set (drop (length (trace serving_world)) (trace s'))"
    using serving [of "env_stop stop_throws", THEN conjunct2, THEN conjunct1, rule_format,
        of 0 "websocketpp_exception ''invalid state''"] serving_world_fields(2) thr
    by auto
  have 4: "onStop (env_stop stop_blocks) (Caller 0) serving_world = None"
    using serving [of "env_stop stop_blocks", THEN conjunct2, THEN conjunct2, THEN conjunct1,
        rule_format, of 0 "\<lambda>n. S_lock" 0] serving_world_fields(2) blk
    by simp
  have 5: "run env_racing ?w = None"
  proof -
    have "\<not> (new_WSServerHandler env_racing \<noteq> None \<or> (\<exists>e. make_endpoint env_racing = Inl e) \<or>
            (\<exists>j. \<forall>m. serve_outcome env_racing j \<noteq> Some (websocketpp_exception m)))"
      by (simp add: env_racing_def)
    with initial [of env_racing, THEN conjunct2, THEN conjunct2, THEN conjunct2, THEN conjunct2,
        THEN conjunct2, THEN conjunct1]
    show ?thesis by blast
  qed
  have 6: "run env_racing (?w\<lparr>threadShouldExit := True\<rparr>) = None"
    using initial [of env_racing, THEN conjunct2, THEN conjunct2, THEN conjunct2, THEN conjunct2,
        THEN conjunct1] 5 by auto
  have "run (env_of None (Inr 0) []) ?w \<noteq> None"
    by (simp add: run_peer_ws_clean)
  then have 7: "run (env_of None (Inr 0) []) (?w\<lparr>threadShouldExit := True\<rparr>) \<noteq> None"
    using initial [of "env_of None (Inr 0) []", THEN conjunct2, THEN conjunct2, THEN conjunct2,
        THEN conjunct2, THEN conjunct1] by auto
  from 1 2 3 4 5 6 7 show ?thesis by blast
qed

text \<open>
  Claim C7, as amended. \<open>make_WSDoor\<close> never ends with an exception: when every step
  of the construction of the \<open>WSDoorImp\<close> object succeeds (the allocation, the two base
  classes, the copy of the port configuration, \<open>startThread ()\<close>) it returns the listener,
  and when one of them throws it returns null. The protocol handler and the endpoint are
  not built there but by \<open>run()\<close>, on the thread that the constructor started: whether
  their construction fails has no part in what \<open>make_WSDoor\<close> returns, and when it fails
  on a listener that \<open>make_WSDoor\<close> returned, the exception leaves \<open>run()\<close>, with
  \<open>m_endpoint\<close> null and no \<open>stopped ()\<close>.
\<close>

theorem make_WSDoor_never_raises:
  "(\<forall>e. make_WSDoor c p \<noteq> Inl e) \<and>
   make_WSDoor c p =
     (if allocate_door c = None \<and> construct_WSDoor c = None \<and> construct_Thread c = None \<and>
         make_shared_Port c = None \<and> startThread c = None
      then Inr (Some (init_world p)) else Inr None) \<and>
   (\<forall>d e. make_WSDoor c p = Inr (Some d) \<and>
        (new_WSServerHandler env = Some e \<or>
         (new_WSServerHandler env = None \<and> make_endpoint env = Inl e)) \<longrightarrow>
        init_system p = \<lparr>shared = d, exec_pc = R_log, caller_pc = (\<lambda>n. S_lock)\<rparr> \<and>
        (\<exists>s'. run env d = Some (Inl (Thrown e), s') \<and> Stopped \<notin> set (trace s') \<and>
              m_endpoint s' = None))"
proof (intro conjI allI impI)
  show "make_WSDoor c p \<noteq> Inl e" for e
    by (auto simp: make_WSDoor_def make_unique_WSDoorImp_def split: option.splits)
  show "make_WSDoor c p =
     (if allocate_door c = None \<and> construct_WSDoor c = None \<and> construct_Thread c = None \<and>
         make_shared_Port c = None \<and> startThread c = None
      then Inr (Some (init_world p)) else Inr None)"
    by (auto simp: make_WSDoor_def make_unique_WSDoorImp_def split: option.splits)
next
  fix d e
  assume h: "make_WSDoor c p = Inr (Some d) \<and>
        (new_WSServerHandler env = Some e \<or>
         (new_WSServerHandler env = None \<and> make_endpoint env = Inl e))"
  from make_WSDoor_Some [OF conjunct1 [OF h]] have d: "d = init_world p" .
  show "init_system p = \<lparr>shared = d, exec_pc = R_log, caller_pc = (\<lambda>n. S_lock)\<rparr>"
    by (simp add: d init_system_def)
  have free: "m_endpointLock (emit (WriteLog lsINFO (startup_message p)) (init_world p)) = None"
    by (simp add: init_world_def)
  show "\<exists>s'. run env d = Some (Inl (Thrown e), s') \<and> Stopped \<notin> set (trace s') \<and>
              m_endpoint s' = None"
    using conjunct2 [OF h] unfolding d
    by (auto simp: run_def run_body_def acquire_free init_world_def)
qed

theorem make_WSDoor_never_raises_witness:
  "make_WSDoor ctor_ok peer_ws = Inr (Some (init_world peer_ws)) \<and>
   make_WSDoor ctor_no_thread peer_ws = Inr None \<and>
   (\<exists>s'. run (env_of None (Inl (other_exception ''bad_alloc'')) []) (init_world peer_ws) =
           Some (Inl (Thrown (other_exception ''bad_alloc'')), s') \<and>
         Stopped \<notin> set (trace s') \<and> m_endpoint s' = None)"
proof -
  let ?env = "env_of None (Inl (other_exception ''bad_alloc'')) []"
  have ok: "make_WSDoor ctor_ok peer_ws = Inr (Some (init_world peer_ws))"
    using make_WSDoor_never_raises [of ctor_ok peer_ws] by (simp add: ctor_ok_def)
  have no: "make_WSDoor ctor_no_thread peer_ws = Inr None"
    using make_WSDoor_never_raises [of ctor_no_thread peer_ws]
    by (simp add: ctor_ok_def ctor_no_thread_def)
  have h: "make_WSDoor ctor_ok peer_ws = Inr (Some (init_world peer_ws)) \<and>
        (new_WSServerHandler ?env = Some (other_exception ''bad_alloc'') \<or>
         (new_WSServerHandler ?env = None \<and>
          make_endpoint ?env = Inl (other_exception ''bad_alloc'')))"
    using ok by (simp add: env_of_def)
  from make_WSDoor_never_raises [of ctor_ok peer_ws ?env, THEN conjunct2, THEN conjunct2,
      rule_format, OF h]
  have "\<exists>s'. run ?env (init_world peer_ws) =
           Some (Inl (Thrown (other_exception ''bad_alloc'')), s') \<and>
         Stopped \<notin> set (trace s') \<and> m_endpoint s' = None"
    by blast
  with ok no show ?thesis by blast
qed

theorem make_WSDoor_endpoint_failure_counterexample:
  "make_WSDoor ctor_ok peer_ws = Inr (Some (init_world peer_ws)) \<and>
   fst (the (run (env_of None (Inl (other_exception ''bad_alloc'')) []) (init_world peer_ws))) =
     Inl (Thrown (other_exception ''bad_alloc'')) \<and>
   trace (snd (the (run (env_of None (Inl (other_exception ''bad_alloc'')) [])
     (init_world peer_ws)))) =
     [WriteLog lsINFO (startup_message peer_ws), Lock Exec, Unlock Exec]"
  by (simp add: make_WSDoor_def make_unique_WSDoorImp_def ctor_ok_def run_def run_body_def
      acquire_def release_def emit_def init_world_def env_of_def)

text \<open>
  Claim C8. A run of \<open>run()\<close> logs one informational line, the text built from the
  name, the address, the port and the admin flag of the configuration, and it is the first
  thing the run does. The configuration is the one supplied at construction: on the
  listener that \<open>make_WSDoor\<close> returns for the configuration \<open>p\<close>, the one informational
  line of \<open>run()\<close> is the text built from \<open>p\<close>; and however \<open>run()\<close> interleaves with
  invocations of \<open>onStop()\<close>, the informational lines logged so far are that one line, as
  soon as \<open>run()\<close> is past its first statement. Two configurations with the same line
  have the same admin flag; if they also have the same name, or the same address and port,
  they are the same configuration. The line has no effect on what follows: with it or
  without it, \<open>run()\<close> ends in the same way after the same events.
\<close>

theorem startup_diagnostic_echoes_config:
  assumes "m_endpointLock s = None"
  shows "(\<forall>r s'. run env s = Some (r, s') \<longrightarrow>
            logged lsINFO (drop (length (trace s)) (trace s')) = [startup_message (port_cfg s)] \<and>
            hd (drop (length (trace s)) (trace s')) =
              WriteLog lsINFO (startup_message (port_cfg s))) \<and>
         (startup_message p = startup_message q \<longrightarrow>
            allow_admin p = allow_admin q \<and>
            (name p = name q \<or> (ip p = ip q \<and> port p = port q) \<longrightarrow>
               name p = name q \<and> ip p = ip q \<and> port p = port q)) \<and>
         ((run env s = None \<and> run_body env s = None) \<or>
          (\<exists>r s' w'. run env s = Some (r, s') \<and> run_body env s = Some (r, w') \<and>
              drop (length (trace s)) (trace s') =
                WriteLog lsINFO (startup_message (port_cfg s)) #
                drop (length (trace s)) (trace w'))) \<and>
         (\<forall>c d. make_WSDoor c p = Inr (Some d) \<longrightarrow>
            port_cfg d = p \<and>
            init_system p = \<lparr>shared = d, exec_pc = R_log, caller_pc = (\<lambda>n. S_lock)\<rparr> \<and>
            (\<forall>r s'. run env d = Some (r, s') \<longrightarrow>
               logged lsINFO (trace s') = [startup_message p] \<and>
               hd (trace s') = WriteLog lsINFO (startup_message p))) \<and>
         (\<forall>sched \<sigma>. exec env sched (init_system p) = Some \<sigma> \<longrightarrow>
            port_cfg (shared \<sigma>) = p \<and>
            logged lsINFO (trace (shared \<sigma>)) =
              (if exec_pc \<sigma> = R_log then [] else [startup_message p]))"
proof (intro conjI allI impI)
  fix r s'
  assume "run env s = Some (r, s')"
  then have rb: "run_body env (emit (WriteLog lsINFO (startup_message (port_cfg s))) s) =
      Some (r, s')"
    by (simp add: run_def)
  let ?L = "WriteLog lsINFO (startup_message (port_cfg s))"
  from run_body_Some [OF rb] obtain evs where evs: "trace s' = (trace s @ [?L]) @ evs"
    by (elim disjE exE conjE) simp_all
  have "logged lsINFO evs = []"
    using logged_drop_run_body [OF rb] evs by simp
  then show "logged lsINFO (drop (length (trace s)) (trace s')) = [startup_message (port_cfg s)]"
    using evs by simp
  show "hd (drop (length (trace s)) (trace s')) = ?L"
    using evs by simp
next
  assume "startup_message p = startup_message q"
  then show "allow_admin p = allow_admin q"
    using startup_message_last [of p] startup_message_last [of q] by simp
next
  assume "startup_message p = startup_message q"
    and "name p = name q \<or> (ip p = ip q \<and> port p = port q)"
  from startup_message_determines [OF this] show "name p = name q" "ip p = ip q" "port p = port q"
    by simp_all
next
  let ?L = "WriteLog lsINFO (startup_message (port_cfg s))"
  have "m_endpointLock (emit ?L s) = None" "port_cfg (emit ?L s) = port_cfg s"
    using assms by simp_all
  from run_body_same_control [OF this(1) assms this(2), of env]
  show "(run env s = None \<and> run_body env s = None) \<or>
          (\<exists>r s' w'. run env s = Some (r, s') \<and> run_body env s = Some (r, w') \<and>
              drop (length (trace s)) (trace s') = ?L # drop (length (trace s)) (trace w'))"
  proof (elim disjE exE conjE)
    fix r s' w'
    assume h: "run_body env (emit ?L s) = Some (r, s')" "run_body env s = Some (r, w')"
      "drop (length (trace (emit ?L s))) (trace s') = drop (length (trace s)) (trace w')"
    from run_body_Some [OF h(1)] obtain evs where evs: "trace s' = (trace s @ [?L]) @ evs"
      by (elim disjE exE conjE) simp_all
    have "drop (length (trace s)) (trace s') = ?L # drop (length (trace s)) (trace w')"
      using h(3) evs by simp
    with h(1,2) show ?thesis by (simp add: run_def)
  qed (simp add: run_def)
next
  fix c d
  assume "make_WSDoor c p = Inr (Some d)"
  from make_WSDoor_Some [OF this] have d: "d = init_world p" .
  show "port_cfg d = p" by (simp add: d init_world_def)
  show "init_system p = \<lparr>shared = d, exec_pc = R_log, caller_pc = (\<lambda>n. S_lock)\<rparr>"
    by (simp add: d init_system_def)
  fix r s'
  assume "run env d = Some (r, s')"
  then have rb: "run_body env (emit (WriteLog lsINFO (startup_message p)) d) = Some (r, s')"
    by (simp add: run_def d init_world_def)
  let ?L = "WriteLog lsINFO (startup_message p)"
  from run_body_Some [OF rb] obtain evs where evs: "trace s' = [?L] @ evs"
    by (elim disjE exE conjE) (simp_all add: d init_world_def)
  have "logged lsINFO evs = []"
    using logged_drop_run_body [OF rb] evs by (simp add: d init_world_def)
  then show "logged lsINFO (trace s') = [startup_message p]"
    using evs by simp
  show "hd (trace s') = ?L"
    using evs by simp
next
  fix sched \<sigma>
  assume "exec env sched (init_system p) = Some \<sigma>"
  from reachable_config [OF this]
  show "port_cfg (shared \<sigma>) = p"
    and "logged lsINFO (trace (shared \<sigma>)) =
              (if exec_pc \<sigma> = R_log then [] else [startup_message p])"
    by (simp_all add: config_inv_def)
qed

theorem startup_diagnostic_echoes_config_witness:
  "logged lsINFO (trace (snd (the (run (env_of None (Inr 0) []) (init_world peer_ws))))) =
     [''Websocket: '' @ [CHR 0x27] @ ''peer-ws'' @ [CHR 0x27] @
      '' listening on 127.0.0.1:6206''] \<and>
   (\<exists>d. make_WSDoor ctor_ok (peer_ws\<lparr>allow_admin := True\<rparr>) = Inr (Some d) \<and>
        run (env_of None (Inr 0) []) d \<noteq> None \<and>
        logged lsINFO (trace (snd (the (run (env_of None (Inr 0) []) d)))) =
          [''Websocket: '' @ [CHR 0x27] @ ''peer-ws'' @ [CHR 0x27] @
           '' listening on 127.0.0.1:6206(Admin)'']) \<and>
   exec (env_of None (Inr 0) []) sched_two_stops (init_system peer_ws) \<noteq> None \<and>
   logged lsINFO (trace (shared
     (the (exec (env_of None (Inr 0) []) sched_two_stops (init_system peer_ws))))) =
     [startup_message peer_ws] \<and>
   startup_message (peer_ws\<lparr>allow_admin := True\<rparr>) =
     ''Websocket: '' @ [CHR 0x27] @ ''peer-ws'' @ [CHR 0x27] @
     '' listening on 127.0.0.1:6206(Admin)'' \<and>
   startup_message peer_ws \<noteq> startup_message (peer_ws\<lparr>allow_admin := True\<rparr>) \<and>
   startup_message peer_ws \<noteq> startup_message (peer_ws\<lparr>port := 6207\<rparr>)"
proof -
  let ?env = "env_of None (Inr 0) []" and ?w = "init_world peer_ws"
  define rs where "rs = the (run ?env ?w)"
  have r: "run ?env ?w = Some (fst rs, snd rs)"
    by (simp add: rs_def run_peer_ws_clean)
  have w: "m_endpointLock ?w = None" "trace ?w = []" "port_cfg ?w = peer_ws"
    by (simp_all add: init_world_def)
  note inst = startup_diagnostic_echoes_config [OF w(1)]
  have "logged lsINFO (trace (snd rs)) = [startup_message peer_ws]"
    using inst [of ?env, THEN conjunct1, rule_format, OF r] by (simp add: w)
  then have 1: "logged lsINFO (trace (snd rs)) =
     [''Websocket: '' @ [CHR 0x27] @ ''peer-ws'' @ [CHR 0x27] @
      '' listening on 127.0.0.1:6206'']"
    by (simp add: startup_message_peer_ws)
  have 2: "startup_message (peer_ws\<lparr>allow_admin := True\<rparr>) =
     ''Websocket: '' @ [CHR 0x27] @ ''peer-ws'' @ [CHR 0x27] @
     '' listening on 127.0.0.1:6206(Admin)''"
    by (simp add: startup_message_def peer_ws_def to_string.simps digit_char_def)
  have 3: "startup_message peer_ws \<noteq> startup_message (peer_ws\<lparr>allow_admin := True\<rparr>)"
    using inst [of _ peer_ws "peer_ws\<lparr>allow_admin := True\<rparr>", THEN conjunct2, THEN conjunct1]
    by (auto simp: peer_ws_def)
  have 4: "startup_message peer_ws \<noteq> startup_message (peer_ws\<lparr>port := 6207\<rparr>)"
    using inst [of _ peer_ws "peer_ws\<lparr>port := 6207\<rparr>", THEN conjunct2, THEN conjunct1]
    by (auto simp: peer_ws_def)
  let ?q = "peer_ws\<lparr>allow_admin := True\<rparr>"
  have mk: "make_WSDoor ctor_ok ?q = Inr (Some (init_world ?q))"
    by (simp add: make_WSDoor_def make_unique_WSDoorImp_def ctor_ok_def)
  have free: "m_endpointLock (init_world ?q) = None"
    by (simp add: init_world_def)
  have ne: "run ?env (init_world ?q) \<noteq> None"
    unfolding run_terminates_iff [OF free] by (simp add: env_of_def outcomes_of_def)
  define qs where "qs = the (run ?env (init_world ?q))"
  have q: "run ?env (init_world ?q) = Some (fst qs, snd qs)"
    using ne by (simp add: qs_def)
  from startup_diagnostic_echoes_config [OF w(1), of _ ?q, THEN conjunct2, THEN conjunct2,
      THEN conjunct2, THEN conjunct1, rule_format, OF mk, THEN conjunct2, THEN conjunct2,
      rule_format, OF q]
  have "logged lsINFO (trace (snd qs)) = [startup_message ?q]"
    by simp
  then have 5: "\<exists>d. make_WSDoor ctor_ok ?q = Inr (Some d) \<and> run ?env d \<noteq> None \<and>
        logged lsINFO (trace (snd (the (run ?env d)))) =
          [''Websocket: '' @ [CHR 0x27] @ ''peer-ws'' @ [CHR 0x27] @
           '' listening on 127.0.0.1:6206(Admin)'']"
    using mk ne unfolding qs_def 2 by blast
  let ?x = "exec ?env sched_two_stops (init_system peer_ws)"
  have x: "?x = Some (the ?x)" "?x \<noteq> None" "exec_pc (the ?x) \<noteq> R_log"
    by (simp_all add: exec_two_stops)
  from startup_diagnostic_echoes_config [OF w(1), of _ peer_ws, THEN conjunct2, THEN conjunct2,
      THEN conjunct2, THEN conjunct2, rule_format, OF x(1)] x(3)
  have 6: "logged lsINFO (trace (shared (the ?x))) = [startup_message peer_ws]"
    by simp
  from 1 2 3 4 5 6 x(2) show ?thesis unfolding rs_def by simp
qed



text \<open>
  Claim C10, as amended. Let an invocation of \<open>onStop()\<close> get the mutex. When
  \<open>m_endpoint\<close> is null it returns, and its events are the lock, the read, the unlock and
  \<open>signalThreadShouldExit ()\<close>: the null case skips the call of \<open>stop ()\<close> and nothing
  else. When \<open>m_endpoint\<close> is not null and \<open>stop ()\<close> returns, it returns too, and the
  call of \<open>stop ()\<close> comes between the unlock and the signal, which is the last thing it
  does. When \<open>stop ()\<close> throws, the exception leaves \<open>onStop()\<close> right after the call:
  there is no signal and the flag is as it was; and when \<open>stop ()\<close> never returns,
  \<open>onStop()\<close> does not return. So an invocation signals exactly when it returns. And
  however the invocations interleave with \<open>run()\<close> and with each other: an invocation that
  has returned has made the signal, and the flag is set; an invocation that is inside
  \<open>stop ()\<close>, or was left by an exception, has not made it.
\<close>

theorem onStop_always_signals_exit:
  assumes "m_endpointLock s = None"
  shows "(m_endpoint s = None \<longrightarrow>
           (\<exists>s'. onStop env t s = Some (Inr (), s') \<and> threadShouldExit s' \<and>
              drop (length (trace s)) (trace s') =
                [Lock t, HandleRead t, Unlock t, SignalThreadShouldExit t])) \<and>
         (\<forall>a. m_endpoint s = Some a \<and> stop_outcome env t = Returns \<longrightarrow>
           (\<exists>s'. onStop env t s = Some (Inr (), s') \<and> threadShouldExit s' \<and>
              drop (length (trace s)) (trace s') =
                [Lock t, HandleRead t, Unlock t, EndpointStop t a, SignalThreadShouldExit t])) \<and>
         (\<forall>a e. m_endpoint s = Some a \<and> stop_outcome env t = Throws e \<longrightarrow>
           (\<exists>s'. onStop env t s = Some (Inl (Thrown e), s') \<and>
              threadShouldExit s' = threadShouldExit s \<and>
              drop (length (trace s)) (trace s') =
                [Lock t, HandleRead t, Unlock t, EndpointStop t a])) \<and>
         (\<forall>a. m_endpoint s = Some a \<and> stop_outcome env t = NeverReturns \<longrightarrow>
            onStop env t s = None) \<and>
         (\<forall>r s'. onStop env t s = Some (r, s') \<longrightarrow>
            count_list (drop (length (trace s)) (trace s')) (SignalThreadShouldExit t) =
              (if r = Inr () then 1 else 0) \<and>
            (r = Inr () \<longleftrightarrow> last (trace s') = SignalThreadShouldExit t) \<and>
            (r = Inr () \<longleftrightarrow> m_endpoint s = None \<or> stop_outcome env t = Returns)) \<and>
         (exec env sched (init_system p) = Some \<sigma> \<and> caller_pc \<sigma> n = S_returned \<longrightarrow>
            SignalThreadShouldExit (Caller n) \<in> set (trace (shared \<sigma>)) \<and>
            threadShouldExit (shared \<sigma>)) \<and>
         (exec env sched (init_system p) = Some \<sigma> \<and>
            ((\<exists>q. caller_pc \<sigma> n = S_stopping q) \<or> (\<exists>f. caller_pc \<sigma> n = S_aborted f)) \<longrightarrow>
            SignalThreadShouldExit (Caller n) \<notin> set (trace (shared \<sigma>)))"
proof (intro conjI impI allI)
  assume "m_endpoint s = None"
  then have m: "m_endpoint s = None \<or> stop_outcome env t = Returns" by simp
  from onStop_returns [OF assms m] \<open>m_endpoint s = None\<close>
  show "\<exists>s'. onStop env t s = Some (Inr (), s') \<and> threadShouldExit s' \<and>
              drop (length (trace s)) (trace s') =
                [Lock t, HandleRead t, Unlock t, SignalThreadShouldExit t]"
    by auto
next
  fix a
  assume h: "m_endpoint s = Some a \<and> stop_outcome env t = Returns"
  then have m: "m_endpoint s = None \<or> stop_outcome env t = Returns" by simp
  from onStop_returns [OF assms m] h
  show "\<exists>s'. onStop env t s = Some (Inr (), s') \<and> threadShouldExit s' \<and>
              drop (length (trace s)) (trace s') =
                [Lock t, HandleRead t, Unlock t, EndpointStop t a, SignalThreadShouldExit t]"
    by auto
next
  fix a e
  assume h: "m_endpoint s = Some a \<and> stop_outcome env t = Throws e"
  from onStop_throws [OF assms conjunct1 [OF h] conjunct2 [OF h]]
  show "\<exists>s'. onStop env t s = Some (Inl (Thrown e), s') \<and>
              threadShouldExit s' = threadShouldExit s \<and>
              drop (length (trace s)) (trace s') =
                [Lock t, HandleRead t, Unlock t, EndpointStop t a]"
    by auto
next
  fix a
  assume "m_endpoint s = Some a \<and> stop_outcome env t = NeverReturns"
  then show "onStop env t s = None"
    using onStop_free [OF assms, of env t] by simp
next
  fix r s'
  assume o: "onStop env t s = Some (r, s')"
  note f = onStop_Some [OF o]
  show "count_list (drop (length (trace s)) (trace s')) (SignalThreadShouldExit t) =
              (if r = Inr () then 1 else 0)"
    by (cases r) (simp_all add: f(2) split: option.splits)
  show "r = Inr () \<longleftrightarrow> last (trace s') = SignalThreadShouldExit t"
    by (cases r) (simp_all add: f(2) split: option.splits)
  show "r = Inr () \<longleftrightarrow> m_endpoint s = None \<or> stop_outcome env t = Returns"
    using f(1) f(6) by (auto split: option.splits call_end.splits)
next
  assume h: "exec env sched (init_system p) = Some \<sigma> \<and> caller_pc \<sigma> n = S_returned"
  from reachable_inv [OF conjunct1 [OF h]] have "signal_inv \<sigma>"
    by (simp add: system_inv_def)
  then have "signalled (caller_pc \<sigma> n) \<longrightarrow>
        SignalThreadShouldExit (Caller n) \<in> set (trace (shared \<sigma>)) \<and>
        threadShouldExit (shared \<sigma>)"
    unfolding signal_inv_def by (rule spec)
  with h show "SignalThreadShouldExit (Caller n) \<in> set (trace (shared \<sigma>))"
    and "threadShouldExit (shared \<sigma>)"
    by simp_all
next
  assume h: "exec env sched (init_system p) = Some \<sigma> \<and>
            ((\<exists>q. caller_pc \<sigma> n = S_stopping q) \<or> (\<exists>f. caller_pc \<sigma> n = S_aborted f))"
  from reachable_inv [OF conjunct1 [OF h]] have "unsignalled_inv \<sigma>"
    by (simp add: system_inv_def)
  then have "SignalThreadShouldExit (Caller n) \<in> set (trace (shared \<sigma>)) \<longrightarrow>
        signalled (caller_pc \<sigma> n)"
    unfolding unsignalled_inv_def by (rule spec)
  with h show "SignalThreadShouldExit (Caller n) \<notin> set (trace (shared \<sigma>))"
    by auto
qed

theorem onStop_always_signals_exit_witness:
  "(\<exists>s'. onStop (env_stop stop_throws) (Caller 0) (init_world peer_ws) = Some (Inr (), s') \<and>
      threadShouldExit s' \<and>
      trace s' = [Lock (Caller 0), HandleRead (Caller 0), Unlock (Caller 0),
                  SignalThreadShouldExit (Caller 0)]) \<and>
   (\<exists>s'. onStop (env_of None (Inr 0) []) (Caller 0) serving_world = Some (Inr (), s') \<and>
      threadShouldExit s' \<and>
      drop (length (trace serving_world)) (trace s') =
        [Lock (Caller 0), HandleRead (Caller 0), Unlock (Caller 0),
         EndpointStop (Caller 0) 0, SignalThreadShouldExit (Caller 0)]) \<and>
   (\<exists>s'. onStop (env_stop stop_throws) (Caller 0) serving_world =
        Some (Inl (Thrown (websocketpp_exception ''invalid state'')), s') \<and>
      \<not> threadShouldExit s' \<and>
      drop (length (trace serving_world)) (trace s') =
        [Lock (Caller 0), HandleRead (Caller 0), Unlock (Caller 0),
         EndpointStop (Caller 0) 0]) \<and>
   onStop (env_stop stop_blocks) (Caller 0) serving_world = None \<and>
   exec (env_of None (Inr 0) []) sched_two_stops (init_system peer_ws) \<noteq> None \<and>
   caller_pc (the (exec (env_of None (Inr 0) []) sched_two_stops (init_system peer_ws))) 1 =
     S_returned \<and>
   SignalThreadShouldExit (Caller 1) \<in> set (trace (shared
     (the (exec (env_of None (Inr 0) []) sched_two_stops (init_system peer_ws))))) \<and>
   exec (env_stop second_stop_throws) sched_second_stop_live (init_system peer_ws) \<noteq> None \<and>
   SignalThreadShouldExit (Caller 1) \<notin> set (trace (shared
     (the (exec (env_stop second_stop_throws) sched_second_stop_live (init_system peer_ws)))))"
proof -
  let ?x = "exec (env_of None (Inr 0) []) sched_two_stops (init_system peer_ws)"
  have x: "?x = Some (the ?x) \<and> caller_pc (the ?x) 1 = S_returned" "?x \<noteq> None"
    by (simp_all add: exec_two_stops)
  have w: "m_endpointLock (init_world peer_ws) = None" "m_endpoint (init_world peer_ws) = None"
    "trace (init_world peer_ws) = []"
    by (simp_all add: init_world_def)
  from onStop_always_signals_exit
    [OF w(1), of "env_of None (Inr 0) []" "Caller 0" sched_two_stops peer_ws "the ?x" 1,
     THEN conjunct2, THEN conjunct2, THEN conjunct2, THEN conjunct2, THEN conjunct2,
     THEN conjunct1, THEN mp, OF x(1)]
  have sig: "SignalThreadShouldExit (Caller 1) \<in> set (trace (shared (the ?x)))"
    by simp
  let ?y = "exec (env_stop second_stop_throws) sched_second_stop_live (init_system peer_ws)"
  have y: "?y = Some (the ?y) \<and>
      ((\<exists>q. caller_pc (the ?y) 1 = S_stopping q) \<or> (\<exists>f. caller_pc (the ?y) 1 = S_aborted f))"
    "?y \<noteq> None"
    by (simp_all add: exec_second_stop_throws)
  from onStop_always_signals_exit
    [OF w(1), of "env_stop second_stop_throws" "Caller 0" sched_second_stop_live peer_ws
       "the ?y" 1,
     THEN conjunct2, THEN conjunct2, THEN conjunct2, THEN conjunct2, THEN conjunct2,
     THEN conjunct2, THEN mp, OF y(1)]
  have nosig: "SignalThreadShouldExit (Caller 1) \<notin> set (trace (shared (the ?y)))" .
  have thr: "stop_outcome (env_stop stop_throws) (Caller 0) =
      Throws (websocketpp_exception ''invalid state'')"
    by (simp add: env_stop_def stop_throws_def)
  have blk: "stop_outcome (env_stop stop_blocks) (Caller 0) = NeverReturns"
    by (simp add: env_stop_def stop_blocks_def)
  have ret: "stop_outcome (env_of None (Inr 0) []) (Caller 0) = Returns"
    by (simp add: env_of_def)
  have flag: "\<not> threadShouldExit serving_world"
    by (simp add: serving_world_def published_def release_def assign_endpoint_def
        drop_owner_def emit_def init_world_def)
  note serving = onStop_always_signals_exit [OF serving_world_fields(1), of _ "Caller 0"]
  have 1: "\<exists>s'. onStop (env_stop stop_throws) (Caller 0) (init_world peer_ws) =
        Some (Inr (), s') \<and> threadShouldExit s' \<and>
      trace s' = [Lock (Caller 0), HandleRead (Caller 0), Unlock (Caller 0),
                  SignalThreadShouldExit (Caller 0)]"
    using onStop_always_signals_exit [OF w(1), of "env_stop stop_throws" "Caller 0",
        THEN conjunct1] w(2,3)
    by auto
  have 2: "\<exists>s'. onStop (env_of None (Inr 0) []) (Caller 0) serving_world = Some (Inr (), s') \<and>
      threadShouldExit s' \<and>
      drop (length (trace serving_world)) (trace s') =
        [Lock (Caller 0), HandleRead (Caller 0), Unlock (Caller 0),
         EndpointStop (Caller 0) 0, SignalThreadShouldExit (Caller 0)]"
    using serving [of "env_of None (Inr 0) []", THEN conjunct2, THEN conjunct1, rule_format,
        of 0] serving_world_fields(2) ret
    by blast
  have 3: "\<exists>s'. onStop (env_stop stop_throws) (Caller 0) serving_world =
        Some (Inl (Thrown (websocketpp_exception ''invalid state'')), s') \<and>
      \<not> threadShouldExit s' \<and>
      drop (length (trace serving_world)) (trace s') =
        [Lock (Caller 0), HandleRead (Caller 0), Unlock (Caller 0),
         EndpointStop (Caller 0) 0]"
    using serving [of "env_stop stop_throws", THEN conjunct2, THEN conjunct2, THEN conjunct1,
        rule_format, of 0 "websocketpp_exception ''invalid state''"]
      serving_world_fields(2) thr flag
    by auto
  have 4: "onStop (env_stop stop_blocks) (Caller 0) serving_world = None"
    using serving [of "env_stop stop_blocks", THEN conjunct2, THEN conjunct2, THEN conjunct2,
        THEN conjunct1, rule_format, of 0] serving_world_fields(2) blk
    by blast
  from 1 2 3 4 x sig y(2) nosig show ?thesis by blast
qed

theorem onStop_throwing_stop_counterexample:
  "fst (the (onStop (env_stop stop_throws) (Caller 0) serving_world)) =
     Inl (Thrown (websocketpp_exception ''invalid state'')) \<and>
   SignalThreadShouldExit (Caller 0) \<notin>
     set (trace (snd (the (onStop (env_stop stop_throws) (Caller 0) serving_world)))) \<and>
   \<not> threadShouldExit (snd (the (onStop (env_stop stop_throws) (Caller 0) serving_world))) \<and>
   trace (snd (the (onStop (env_stop stop_throws) (Caller 0) serving_world))) =
     trace serving_world @
     [Lock (Caller 0), HandleRead (Caller 0), Unlock (Caller 0), EndpointStop (Caller 0) 0]"
  by (simp add: onStop_def Let_def env_stop_def stop_throws_def env_of_def
        serving_world_def published_def acquire_def release_def assign_endpoint_def
        add_owner_def drop_owner_def deref_def emit_def init_world_def peer_ws_def)

end
